theory Spec2Isabelle
  imports Complex_Main "HOL-Library.AList"
begin

section \<open>Similarity engine (VectorStore: normalizeVector, dotProduct, cosineSimilarity)\<close>

text \<open>
  A JavaScript \<open>number[]\<close> is a list of reals: the arithmetic of the model is exact, so
  rounding, NaN and signed zero are outside it. Every index read below is guarded by the
  loop bound, which never exceeds the length of either array.
\<close>

type_synonym vec = "real list"

text \<open>
  \<open>normalizeVector\<close>: the loop adds \<open>vector[i] * vector[i]\<close> for every index in order,
  then takes the square root; a zero magnitude returns the input itself.
\<close>

definition magnitude :: "vec \<Rightarrow> real" where
  "magnitude vector = sqrt (foldl (\<lambda>m x. m + x * x) 0 vector)"

definition normalizeVector :: "vec \<Rightarrow> vec" where
  "normalizeVector vector =
     (if magnitude vector = 0 then vector
      else map (\<lambda>v. v / magnitude vector) vector)"

text \<open>
  \<open>dotProduct\<close>: the first loop handles four positions per iteration while
  \<open>i + 3 < len\<close>; the second loop finishes the remaining positions one by one.
\<close>

function dot_unrolled :: "vec \<Rightarrow> vec \<Rightarrow> nat \<Rightarrow> nat \<Rightarrow> real \<Rightarrow> nat \<times> real" where
  "dot_unrolled vecA vecB len i sum_acc =
     (if i + 3 < len
      then dot_unrolled vecA vecB len (i + 4)
             (sum_acc + vecA ! i * vecB ! i
                  + vecA ! (i + 1) * vecB ! (i + 1)
                  + vecA ! (i + 2) * vecB ! (i + 2)
                  + vecA ! (i + 3) * vecB ! (i + 3))
      else (i, sum_acc))"
  by pat_completeness auto
termination
  by (relation "measure (\<lambda>(vecA, vecB, len, i, sum_acc). len - i)") auto

function dot_rest :: "vec \<Rightarrow> vec \<Rightarrow> nat \<Rightarrow> nat \<Rightarrow> real \<Rightarrow> real" where
  "dot_rest vecA vecB len i sum_acc =
     (if i < len then dot_rest vecA vecB len (i + 1) (sum_acc + vecA ! i * vecB ! i)
      else sum_acc)"
  by pat_completeness auto
termination
  by (relation "measure (\<lambda>(vecA, vecB, len, i, sum_acc). len - i)") auto

definition dotProduct :: "vec \<Rightarrow> vec \<Rightarrow> real" where
  "dotProduct vecA vecB =
     (let len = min (length vecA) (length vecB);
          (i, sum_acc) = dot_unrolled vecA vecB len 0 0
      in dot_rest vecA vecB len i sum_acc)"

text \<open>
  \<open>cosineSimilarity\<close>: one loop over the shared prefix accumulates the dot product and
  both squared norms; the norms are therefore taken over the shared prefix only.
\<close>

function cosine_loop :: "vec \<Rightarrow> vec \<Rightarrow> nat \<Rightarrow> nat \<Rightarrow> real \<times> real \<times> real \<Rightarrow> real \<times> real \<times> real" where
  "cosine_loop vecA vecB len i (dotP, normA, normB) =
     (if i < len
      then cosine_loop vecA vecB len (i + 1)
             (dotP + vecA ! i * vecB ! i, normA + vecA ! i * vecA ! i, normB + vecB ! i * vecB ! i)
      else (dotP, normA, normB))"
  by pat_completeness auto
termination
  by (relation "measure (\<lambda>(vecA, vecB, len, i, acc). len - i)") auto

definition cosineSimilarity :: "vec \<Rightarrow> vec \<Rightarrow> real" where
  "cosineSimilarity vecA vecB =
     (let len = min (length vecA) (length vecB);
          (dotP, normA2, normB2) = cosine_loop vecA vecB len 0 (0, 0, 0);
          normA = sqrt normA2;
          normB = sqrt normB2
      in if normA = 0 \<or> normB = 0 then 0 else dotP / (normA * normB))"

section \<open>JavaScript values, Map and plain objects\<close>

text \<open>
  Metadata bags hold JSON values. An object that is only ever read by property name (a
  metadata bag) is a finite map from property names to values; an absent property reads
  as \<open>undefined\<close>, which is \<open>None\<close>.
\<close>

datatype jsval = JNull | JBool bool | JNum real | JStr string

type_synonym object = "string \<rightharpoonup> jsval"

fun truthy :: "jsval \<Rightarrow> bool" where
  "truthy JNull = False"
| "truthy (JBool b) = b"
| "truthy (JNum n) = (n \<noteq> 0)"
| "truthy (JStr s) = (s \<noteq> [])"

text \<open>
  A JavaScript \<open>Map\<close> iterates in insertion order: it is the list of its entries.
  \<open>set\<close> replaces the value of an existing key in place and appends a new key at the end;
  \<open>delete\<close> removes the entry of the key; \<open>get\<close> is \<open>map_of\<close>.
\<close>

fun Map_set :: "string \<Rightarrow> 'v \<Rightarrow> (string \<times> 'v) list \<Rightarrow> (string \<times> 'v) list" where
  "Map_set k v [] = [(k, v)]"
| "Map_set k v (e # m) = (if fst e = k then (k, v) # m else e # Map_set k v m)"

fun Map_delete :: "string \<Rightarrow> (string \<times> 'v) list \<Rightarrow> (string \<times> 'v) list" where
  "Map_delete k [] = []"
| "Map_delete k (e # m) = (if fst e = k then Map_delete k m else e # Map_delete k m)"

definition Map_has :: "(string \<times> 'v) list \<Rightarrow> string \<Rightarrow> bool" where
  "Map_has m k = (map_of m k \<noteq> None)"

definition Map_keys :: "(string \<times> 'v) list \<Rightarrow> string list" where
  "Map_keys m = map fst m"

text \<open>\<open>new Map(entries)\<close> inserts the entries one after the other.\<close>

definition Map_new :: "(string \<times> 'v) list \<Rightarrow> (string \<times> 'v) list" where
  "Map_new entries = foldl (\<lambda>m e. Map_set (fst e) (snd e) m) [] entries"

text \<open>
  The objects keyed by record ID inside a snapshot are enumerated again by
  \<open>Object.entries\<close>, so their property order is kept: ECMAScript lists the own string
  keys of an object with the array indices first (canonical decimal strings below
  \<open>2^32 - 1\<close>), in ascending numeric order, and then every other key in creation order.
\<close>

definition is_digit :: "char \<Rightarrow> bool" where
  "is_digit c = (48 \<le> (of_char c :: nat) \<and> (of_char c :: nat) \<le> 57)"

definition digits_value :: "string \<Rightarrow> nat" where
  "digits_value s = foldl (\<lambda>n c. 10 * n + ((of_char c :: nat) - 48)) 0 s"

definition is_array_index :: "string \<Rightarrow> bool" where
  "is_array_index s =
     (s \<noteq> [] \<and> list_all is_digit s \<and> (length s = 1 \<or> hd s \<noteq> CHR ''0'')
      \<and> digits_value s < 2 ^ 32 - 1)"

definition own_property_order :: "(string \<times> 'v) list \<Rightarrow> (string \<times> 'v) list" where
  "own_property_order props =
     sort_key (\<lambda>p. digits_value (fst p)) (filter (\<lambda>p. is_array_index (fst p)) props)
     @ filter (\<lambda>p. \<not> is_array_index (fst p)) props"

definition Object_fromEntries :: "(string \<times> 'v) list \<Rightarrow> (string \<times> 'v) list" where
  "Object_fromEntries entries = own_property_order (Map_new entries)"

definition Object_entries :: "(string \<times> 'v) list \<Rightarrow> (string \<times> 'v) list" where
  "Object_entries obj = obj"

text \<open>\<open>array.slice(0, k)\<close> for an integer \<open>k\<close>: a negative end counts from the end.\<close>

definition slice0 :: "'a list \<Rightarrow> int \<Rightarrow> 'a list" where
  "slice0 xs k = (if k < 0 then take (nat (int (length xs) + k)) xs else take (nat k) xs)"

section \<open>The snapshot file\<close>

text \<open>
  Every thrown value is an \<open>error\<close>: \<open>Error msg\<close> is \<open>new Error(msg)\<close> (the validation
  errors of the store), \<open>FsError code\<close> a rejected file-system call with its \<open>code\<close>,
  \<open>SyntaxError\<close> what \<open>JSON.parse\<close> throws.
\<close>

datatype error = Error string | FsError string | SyntaxError

text \<open>
  The document \<open>save\<close> serialises. \<open>JSON.parse (JSON.stringify data)\<close> gives \<open>data\<close> back
  for the values of this model, so the file holds the document itself; a file written
  by something else may lack \<open>vectors\<close> or \<open>metadata\<close> (then \<open>None\<close>) or not be JSON.
\<close>

record snapshot =
  snap_dimension :: "nat option"
  snap_vectors :: "(string \<times> vec) list option"
  snap_metadata :: "(string \<times> object) list option"
  savedAt :: string

datatype file_content = NotJSON | Doc snapshot

text \<open>
  The file system as the store sees it: the content of the index file (\<open>None\<close> when there
  is no such file), whether reading it fails, and the outcomes of the coming writes
  (\<open>True\<close> is a failing write; an exhausted list means success). A \<open>save\<close> creates the
  directory and writes the file; the two calls are one write here.
\<close>

record fs =
  indexFile :: "file_content option"
  read_fault :: bool
  write_faults :: "bool list"

definition fs_readFile :: "fs \<Rightarrow> error + file_content" where
  "fs_readFile d =
     (case indexFile d of
        None \<Rightarrow> Inl (FsError ''ENOENT'')
      | Some c \<Rightarrow> if read_fault d then Inl (FsError ''EIO'') else Inr c)"

definition fs_writeFile :: "fs \<Rightarrow> file_content \<Rightarrow> (error + unit) \<times> fs" where
  "fs_writeFile d c =
     (case write_faults d of
        [] \<Rightarrow> (Inr (), d\<lparr>indexFile := Some c\<rparr>)
      | failing # later \<Rightarrow>
          if failing then (Inl (FsError ''EIO''), d\<lparr>write_faults := later\<rparr>)
          else (Inr (), d\<lparr>indexFile := Some c, write_faults := later\<rparr>))"

section \<open>The vector store (class VectorStore)\<close>

record VectorStore =
  vectors :: "(string \<times> vec) list"
  metadata :: "(string \<times> object) list"
  dimension :: nat
  topK :: int
  idToIndex :: "(string \<times> nat) list"
  indexToId :: "string list"

definition VectorStore_new :: "nat \<Rightarrow> int \<Rightarrow> VectorStore" where
  "VectorStore_new d k =
     \<lparr>vectors = [], metadata = [], dimension = d, topK = k, idToIndex = [], indexToId = []\<rparr>"

text \<open>
  \<open>save\<close> writes the whole state; \<open>now\<close> is the reading of the clock
  (\<open>new Date().toISOString()\<close>) during the call.
\<close>

definition save :: "VectorStore \<Rightarrow> string \<Rightarrow> fs \<Rightarrow> (error + unit) \<times> fs" where
  "save s now d =
     fs_writeFile d
       (Doc \<lparr>snap_dimension = Some (dimension s),
             snap_vectors = Some (Object_fromEntries (vectors s)),
             snap_metadata = Some (Object_fromEntries (metadata s)),
             savedAt = now\<rparr>)"

text \<open>
  The resizing that \<open>addVector\<close> and \<open>updateVector\<close> both apply to the incoming vector
  (their local \<open>processedVector\<close>).
\<close>

definition processedVector :: "nat \<Rightarrow> vec \<Rightarrow> vec" where
  "processedVector dimension' vector =
     (if length vector \<noteq> dimension'
      then (if length vector < dimension'
            then vector @ replicate (dimension' - length vector) 0
            else take dimension' vector)
      else vector)"

text \<open>
  \<open>addVector(id, vector, meta)\<close>: \<open>None\<close> is a missing argument (\<open>undefined\<close> or \<open>null\<close>).
  \<open>!id\<close> holds for a missing and for an empty string, \<open>!vector\<close> for a missing vector only:
  an empty array is truthy. \<open>addVector_sync\<close> is the method up to \<open>await this.save()\<close>:
  the guard and the changes of the maps, which run without interruption. The state
  changes before \<open>save\<close> runs, so a failing save leaves them in place.
\<close>

definition addVector_sync ::
  "string option \<Rightarrow> vec option \<Rightarrow> object \<Rightarrow> string \<Rightarrow> VectorStore \<Rightarrow> error + VectorStore" where
  "addVector_sync id' vector' meta now s =
     (case (id', vector') of
        (Some i, Some vector) \<Rightarrow>
          if i = [] then Inl (Error ''ID and vector are required'')
          else
            let pv = processedVector (dimension s) vector;
                s1 = s\<lparr>vectors := Map_set i pv (vectors s)\<rparr>;
                s2 = s1\<lparr>metadata := Map_set i (meta(''addedAt'' \<mapsto> JStr now)) (metadata s1)\<rparr>;
                s3 = (if \<not> Map_has (idToIndex s2) i
                      then s2\<lparr>idToIndex := Map_set i (length (indexToId s2)) (idToIndex s2),
                              indexToId := indexToId s2 @ [i]\<rparr>
                      else s2)
            in Inr s3
      | _ \<Rightarrow> Inl (Error ''ID and vector are required''))"

definition addVector ::
  "string option \<Rightarrow> vec option \<Rightarrow> object \<Rightarrow> string \<Rightarrow> VectorStore \<Rightarrow> fs
     \<Rightarrow> (error + unit) \<times> VectorStore \<times> fs" where
  "addVector id' vector' meta now s d =
     (case addVector_sync id' vector' meta now s of
        Inl e \<Rightarrow> (Inl e, s, d)
      | Inr s3 \<Rightarrow> (case save s3 now d of (r, d') \<Rightarrow> (r, s3, d')))"

definition removeVector ::
  "string \<Rightarrow> string \<Rightarrow> VectorStore \<Rightarrow> fs \<Rightarrow> (error + bool) \<times> VectorStore \<times> fs" where
  "removeVector i now s d =
     (let deleted = Map_has (vectors s) i;
          s1 = s\<lparr>vectors := Map_delete i (vectors s)\<rparr>;
          s2 = s1\<lparr>metadata := Map_delete i (metadata s1)\<rparr>
      in if deleted
         then (case save s2 now d of
                 (Inl e, d') \<Rightarrow> (Inl e, s2, d')
               | (Inr u, d') \<Rightarrow> (Inr deleted, s2, d'))
         else (Inr deleted, s2, d))"

definition updateVector ::
  "string \<Rightarrow> vec \<Rightarrow> object \<Rightarrow> string \<Rightarrow> VectorStore \<Rightarrow> fs
     \<Rightarrow> (error + unit) \<times> VectorStore \<times> fs" where
  "updateVector i vector meta now s d =
     (if \<not> Map_has (vectors s) i then addVector (Some i) (Some vector) meta now s d
      else
        let pv = processedVector (dimension s) vector;
            s1 = s\<lparr>vectors := Map_set i pv (vectors s)\<rparr>;
            existingMeta = (case map_of (metadata s1) i of None \<Rightarrow> Map.empty | Some m \<Rightarrow> m);
            s2 = s1\<lparr>metadata :=
                      Map_set i ((existingMeta ++ meta)(''updatedAt'' \<mapsto> JStr now)) (metadata s1)\<rparr>;
            (r, d') = save s2 now d
        in (r, s2, d'))"

definition getVector :: "string \<Rightarrow> VectorStore \<Rightarrow> vec option" where
  "getVector i s = map_of (vectors s) i"

definition clear :: "string \<Rightarrow> VectorStore \<Rightarrow> fs \<Rightarrow> (error + unit) \<times> VectorStore \<times> fs" where
  "clear now s d =
     (let s1 = s\<lparr>vectors := [], metadata := [], idToIndex := [], indexToId := []\<rparr>;
          (r, d') = save s1 now d
      in (r, s1, d'))"

text \<open>
  \<open>load\<close>: a missing file is not an error and leaves the store as it is; every other
  failure is thrown again. The stored dimension is only compared for a log line.
\<close>

definition rebuild_mappings :: "VectorStore \<Rightarrow> VectorStore" where
  "rebuild_mappings s =
     foldl (\<lambda>st i. st\<lparr>idToIndex := Map_set i (length (indexToId st)) (idToIndex st),
                       indexToId := indexToId st @ [i]\<rparr>)
           (s\<lparr>idToIndex := [], indexToId := []\<rparr>) (Map_keys (vectors s))"

definition load :: "VectorStore \<Rightarrow> fs \<Rightarrow> (error + unit) \<times> VectorStore" where
  "load s d =
     (case fs_readFile d of
        Inl e \<Rightarrow> if e = FsError ''ENOENT'' then (Inr (), s) else (Inl e, s)
      | Inr NotJSON \<Rightarrow> (Inl SyntaxError, s)
      | Inr (Doc parsed) \<Rightarrow>
          let s1 = s\<lparr>vectors :=
                      Map_new (Object_entries (case snap_vectors parsed of None \<Rightarrow> [] | Some ob \<Rightarrow> ob))\<rparr>;
              s2 = s1\<lparr>metadata :=
                      Map_new (Object_entries (case snap_metadata parsed of None \<Rightarrow> [] | Some ob \<Rightarrow> ob))\<rparr>
          in (Inr (), rebuild_mappings s2))"

subsection \<open>search\<close>

record filter =
  excludeIds :: "string list option"
  category :: "jsval option"

record hit =
  id_of :: string
  score :: real
  metadata_of :: object

text \<open>
  The loop over \<open>this.vectors.entries()\<close>: an excluded ID and a category mismatch skip
  the entry, every other entry is pushed with its score. \<open>filter.category\<close> filters only
  when it is truthy, and \<open>meta?.category\<close> of a missing bag is \<open>undefined\<close>.
\<close>

fun search_scan :: "VectorStore \<Rightarrow> filter \<Rightarrow> vec \<Rightarrow> (string \<times> vec) list \<Rightarrow> hit list" where
  "search_scan s flt normalizedQuery [] = []"
| "search_scan s flt normalizedQuery ((i, vector) # entries) =
     (if (case excludeIds flt of None \<Rightarrow> False | Some ex \<Rightarrow> i \<in> set ex)
      then search_scan s flt normalizedQuery entries
      else
        let meta = map_of (metadata s) i in
        if (case category flt of None \<Rightarrow> False | Some c \<Rightarrow> truthy c)
           \<and> (case meta of None \<Rightarrow> None | Some m \<Rightarrow> m ''category'') \<noteq> category flt
        then search_scan s flt normalizedQuery entries
        else \<lparr>id_of = i,
              score = dotProduct normalizedQuery (normalizeVector vector),
              metadata_of = (case meta of None \<Rightarrow> Map.empty | Some m \<Rightarrow> m)\<rparr>
             # search_scan s flt normalizedQuery entries)"

text \<open>
  \<open>results.sort((a, b) => b.score - a.score)\<close> is a stable sort by descending score:
  \<open>sort_key\<close> on the negated score (insertion sort, which keeps equal keys in order).
  \<open>topK || this.topK\<close> replaces a missing and a zero \<open>topK\<close> by the configured default.
\<close>

definition search :: "vec option \<Rightarrow> int option \<Rightarrow> filter \<Rightarrow> VectorStore \<Rightarrow> error + hit list" where
  "search queryVector topK' flt s =
     (let k = (case topK' of None \<Rightarrow> topK s | Some n \<Rightarrow> if n = 0 then topK s else n) in
      case queryVector of
        None \<Rightarrow> Inl (Error ''Query vector is required'')
      | Some q \<Rightarrow>
          if length q = 0 then Inl (Error ''Query vector is required'')
          else
            let normalizedQuery = normalizeVector q;
                results = search_scan s flt normalizedQuery (vectors s)
            in Inr (slice0 (sort_key (\<lambda>r. - score r) results) k))"

section \<open>Search controller: hybridSearch and reindexAll\<close>

text \<open>
  A note as the controller reads it: \<open>note._id.toString()\<close> and \<open>note.content\<close>.
\<close>

record Note =
  note_id :: string
  content :: string

subsection \<open>The score fusion of hybridSearch\<close>

record combined =
  cid :: string
  semanticScore :: real
  keywordScore :: real

record scored = combined +
  totalScore :: real

text \<open>
  \<open>semanticResults.forEach((result, index) => ...)\<close>: every result sets its entry of
  \<open>combinedScores\<close>; \<open>len\<close> is \<open>semanticResults.length\<close>.
\<close>

fun add_semantic ::
  "real \<Rightarrow> nat \<Rightarrow> nat \<Rightarrow> hit list \<Rightarrow> (string \<times> combined) list \<Rightarrow> (string \<times> combined) list" where
  "add_semantic weight len index [] combinedScores = combinedScores"
| "add_semantic weight len index (result # rest) combinedScores =
     (let normalizedScore = 1 - real index / real len
      in add_semantic weight len (index + 1) rest
           (Map_set (id_of result)
              \<lparr>cid = id_of result, semanticScore = normalizedScore * weight, keywordScore = 0\<rparr>
              combinedScores))"

text \<open>
  \<open>keywordResults.forEach((note, index) => ...)\<close>: an ID already present gets its
  \<open>keywordScore\<close> assigned in place, a new ID gets an entry with \<open>semanticScore\<close> 0.
\<close>

fun add_keyword ::
  "real \<Rightarrow> nat \<Rightarrow> nat \<Rightarrow> Note list \<Rightarrow> (string \<times> combined) list \<Rightarrow> (string \<times> combined) list" where
  "add_keyword weight len index [] combinedScores = combinedScores"
| "add_keyword weight len index (n # rest) combinedScores =
     (let i = note_id n;
          normalizedScore = 1 - real index / real len
      in add_keyword weight len (index + 1) rest
           (case map_of combinedScores i of
              Some item \<Rightarrow>
                Map_set i (item\<lparr>keywordScore := normalizedScore * (1 - weight)\<rparr>) combinedScores
            | None \<Rightarrow>
                Map_set i \<lparr>cid = i, semanticScore = 0, keywordScore = normalizedScore * (1 - weight)\<rparr>
                  combinedScores))"

definition with_total :: "combined \<Rightarrow> scored" where
  "with_total item =
     \<lparr>cid = cid item, semanticScore = semanticScore item, keywordScore = keywordScore item,
      totalScore = semanticScore item + keywordScore item\<rparr>"

text \<open>
  \<open>scoredResults\<close> of \<open>hybridSearch\<close>, from the two ranked lists, the parsed weight and
  the parsed limit: the values of \<open>combinedScores\<close> in insertion order, each with its
  total, sorted (stably) by descending total and cut by \<open>slice(0, parsedLimit)\<close>.
  The handler then fetches the notes of these IDs and drops a result whose note is not
  found; the order and the scores are those of \<open>scoredResults\<close>.
\<close>

definition scoredResults :: "hit list \<Rightarrow> Note list \<Rightarrow> real \<Rightarrow> int \<Rightarrow> scored list" where
  "scoredResults semanticResults keywordResults weight parsedLimit =
     (let combinedScores =
            add_keyword weight (length keywordResults) 0 keywordResults
              (add_semantic weight (length semanticResults) 0 semanticResults [])
      in slice0 (sort_key (\<lambda>r. - totalScore r) (map (with_total \<circ> snd) combinedScores))
           parsedLimit)"

subsection \<open>reindexAll\<close>

text \<open>
  \<open>generateEmbedding\<close> throws on an empty text; otherwise it returns the vector of the
  remote model or, when the call fails, of the local fallback. \<open>backend\<close> stands for
  that vector as a function of the text (cut to 8000 characters).
\<close>

definition generateEmbedding :: "(string \<Rightarrow> vec) \<Rightarrow> string \<Rightarrow> error + vec" where
  "generateEmbedding backend text =
     (if text = [] then Inl (Error ''Text must be a non-empty string'')
      else Inr (backend (if length text > 8000 then take 8000 text else text)))"

text \<open>
  The collaborators of \<open>reindexAll\<close>: the embedding backend, and for each note ID whether
  \<open>Embedding.findOneAndUpdate\<close> and \<open>Note.findByIdAndUpdate\<close> reject.
\<close>

record collaborators =
  backend :: "string \<Rightarrow> vec"
  embedding_upsert_fails :: "string \<Rightarrow> bool"
  note_update_fails :: "string \<Rightarrow> bool"

text \<open>
  The callbacks of one batch run under \<open>Promise.all\<close>. Each callback obtains the
  embedding and executes \<open>addVector\<close> up to \<open>await this.save()\<close>; the embedding is taken
  to resolve before any file-system call completes (as the local fallback does, which
  resolves without input or output). File-system and database calls complete only after
  all callbacks of the batch have come that far, so a batch has two phases.
  \<open>reindex_start\<close> is the first phase for one note: a failing embedding or a rejected
  \<open>addVector\<close> is caught and counted, otherwise the record is in the maps and the note
  waits for its save (\<open>pending\<close>).
\<close>

definition reindex_start ::
  "collaborators \<Rightarrow> string \<Rightarrow> nat \<times> VectorStore \<times> Note list \<Rightarrow> Note
     \<Rightarrow> nat \<times> VectorStore \<times> Note list" where
  "reindex_start c now st n =
     (case st of (errors, s, pending) \<Rightarrow>
        (case generateEmbedding (backend c) (content n) of
           Inl e \<Rightarrow> (errors + 1, s, pending)
         | Inr embedding \<Rightarrow>
             (case addVector_sync (Some (note_id n)) (Some embedding) Map.empty now s of
                Inl e \<Rightarrow> (errors + 1, s, pending)
              | Inr s' \<Rightarrow> (errors, s', pending @ [n]))))"

text \<open>
  \<open>reindex_finish\<close> is the second phase for one pending note, the pending notes taken in
  the order of the batch: \<open>save\<close> writes the snapshot of the store as the first phase
  left it, then \<open>Embedding.findOneAndUpdate\<close> and \<open>Note.findByIdAndUpdate\<close> run, and
  \<open>processed\<close> is incremented; a failure of any of the three is caught and counted.
\<close>

definition reindex_finish ::
  "collaborators \<Rightarrow> string \<Rightarrow> VectorStore \<Rightarrow> nat \<times> nat \<times> fs \<Rightarrow> Note \<Rightarrow> nat \<times> nat \<times> fs" where
  "reindex_finish c now s st n =
     (case st of (processed, errors, d) \<Rightarrow>
        (case save s now d of
           (Inl e, d') \<Rightarrow> (processed, errors + 1, d')
         | (Inr u, d') \<Rightarrow>
             if embedding_upsert_fails c (note_id n) then (processed, errors + 1, d')
             else if note_update_fails c (note_id n) then (processed, errors + 1, d')
             else (processed + 1, errors, d')))"

definition reindex_batch ::
  "collaborators \<Rightarrow> string \<Rightarrow> nat \<times> nat \<times> VectorStore \<times> fs \<Rightarrow> Note list
     \<Rightarrow> nat \<times> nat \<times> VectorStore \<times> fs" where
  "reindex_batch c now st batch =
     (case st of (processed, errors, s, d) \<Rightarrow>
        (case foldl (reindex_start c now) (errors, s, []) batch of
           (errors1, s1, pending) \<Rightarrow>
             (case foldl (reindex_finish c now s1) (processed, errors1, d) pending of
                (processed2, errors2, d2) \<Rightarrow> (processed2, errors2, s1, d2))))"

function reindex_batches ::
  "collaborators \<Rightarrow> string \<Rightarrow> Note list \<Rightarrow> nat \<Rightarrow> nat \<times> nat \<times> VectorStore \<times> fs
     \<Rightarrow> nat \<times> nat \<times> VectorStore \<times> fs" where
  "reindex_batches c now notes i st =
     (if i < length notes
      then reindex_batches c now notes (i + 10)
             (reindex_batch c now st (take 10 (drop i notes)))
      else st)"
  by pat_completeness auto
termination
  by (relation "measure (\<lambda>(c, now, notes, i, st). length notes - i)") auto

text \<open>
  The three answers of the handler: the message for an empty collection, the report
  \<open>{totalNotes, processed, errors}\<close>, and an error handed to \<open>next\<close>. \<open>found\<close> is the
  outcome of \<open>Note.find({})\<close>.
\<close>

datatype response = NoNotes | Report nat nat nat | Failed error

definition reindexAll ::
  "collaborators \<Rightarrow> string \<Rightarrow> error + Note list \<Rightarrow> VectorStore \<Rightarrow> fs
     \<Rightarrow> response \<times> VectorStore \<times> fs" where
  "reindexAll c now found s d =
     (case found of
        Inl e \<Rightarrow> (Failed e, s, d)
      | Inr notes \<Rightarrow>
          if length notes = 0 then (NoNotes, s, d)
          else
            (case clear now s d of
               (Inl e, s1, d1) \<Rightarrow> (Failed e, s1, d1)
             | (Inr u, s1, d1) \<Rightarrow>
                 (case reindex_batches c now notes 0 (0, 0, s1, d1) of
                    (processed, errors, s2, d2) \<Rightarrow>
                      (Report (length notes) processed errors, s2, d2))))"

section \<open>Reachable states and the properties stated about them\<close>

text \<open>
  The states of a store and its index file that the operations produce, starting from a
  new store and no file. \<open>restart\<close> is a new process over the same file (its configured
  dimension and default \<open>topK\<close> may differ), \<open>environment\<close> a change of the faults of
  the file system.
\<close>

inductive reachable :: "VectorStore \<times> fs \<Rightarrow> bool" where
  init: "reachable (VectorStore_new dm k, \<lparr>indexFile = None, read_fault = rf, write_faults = faults\<rparr>)"
| add: "reachable (s, d) \<Longrightarrow> addVector i v meta now s d = (r, s', d') \<Longrightarrow> reachable (s', d')"
| update: "reachable (s, d) \<Longrightarrow> updateVector i v meta now s d = (r, s', d') \<Longrightarrow> reachable (s', d')"
| remove: "reachable (s, d) \<Longrightarrow> removeVector i now s d = (rb, s', d') \<Longrightarrow> reachable (s', d')"
| clear: "reachable (s, d) \<Longrightarrow> clear now s d = (r, s', d') \<Longrightarrow> reachable (s', d')"
| save: "reachable (s, d) \<Longrightarrow> save s now d = (r, d') \<Longrightarrow> reachable (s, d')"
| load: "reachable (s, d) \<Longrightarrow> load s d = (r, s') \<Longrightarrow> reachable (s', d)"
| restart: "reachable (s, d) \<Longrightarrow> reachable (VectorStore_new dm k, d)"
| environment: "reachable (s, d) \<Longrightarrow> reachable (s, d\<lparr>read_fault := rf, write_faults := faults\<rparr>)"

text \<open>A JavaScript \<open>Map\<close> holds each key once.\<close>

definition Map_wf :: "(string \<times> 'v) list \<Rightarrow> bool" where
  "Map_wf m = distinct (Map_keys m)"

definition keys_agree :: "VectorStore \<Rightarrow> bool" where
  "keys_agree s = (set (Map_keys (vectors s)) = set (Map_keys (metadata s)))"

text \<open>Whether the next write to the index file succeeds.\<close>

definition next_write_ok :: "fs \<Rightarrow> bool" where
  "next_write_ok d = (case write_faults d of [] \<Rightarrow> True | failing # later \<Rightarrow> \<not> failing)"

text \<open>The position of the first occurrence of a key (the length when it is absent).\<close>

fun index_of :: "'a list \<Rightarrow> 'a \<Rightarrow> nat" where
  "index_of [] x = 0"
| "index_of (y # ys) x = (if x = y then 0 else Suc (index_of ys x))"

text \<open>
  What the reachable states have in common: both maps hold each key once and hold the
  same keys, and a snapshot in the index file does too.
\<close>

definition store_ok :: "VectorStore \<Rightarrow> bool" where
  "store_ok s = (Map_wf (vectors s) \<and> Map_wf (metadata s) \<and> keys_agree s)"

definition file_ok :: "fs \<Rightarrow> bool" where
  "file_ok d =
     (case indexFile d of
        None \<Rightarrow> True
      | Some NotJSON \<Rightarrow> False
      | Some (Doc p) \<Rightarrow>
          (case (snap_vectors p, snap_metadata p) of
             (Some vs, Some ms) \<Rightarrow>
               Map_wf vs \<and> Map_wf ms \<and> set (Map_keys vs) = set (Map_keys ms)
           | _ \<Rightarrow> False))"

section \<open>The properties in the words of the specification\<close>

text \<open>
  Whether a record passes the filter of a search: its ID is not excluded, and a truthy
  \<open>filter.category\<close> equals the category stored for the ID.
\<close>

definition admits :: "filter \<Rightarrow> VectorStore \<Rightarrow> string \<Rightarrow> bool" where
  "admits flt s i =
     ((case excludeIds flt of None \<Rightarrow> True | Some ex \<Rightarrow> i \<notin> set ex)
      \<and> (case category flt of
           None \<Rightarrow> True
         | Some c \<Rightarrow>
             if truthy c
             then (case map_of (metadata s) i of None \<Rightarrow> None | Some m \<Rightarrow> m ''category'') = Some c
             else True))"

text \<open>
  The contribution of a ranked list of IDs to the fused score of an ID: \<open>1 - i/N\<close>
  scaled by the weight for the position \<open>i\<close> of the ID in the list of size \<open>N\<close>, and 0
  for an ID that is not in the list.
\<close>

definition contribution :: "string list \<Rightarrow> real \<Rightarrow> string \<Rightarrow> real" where
  "contribution ranked weight k =
     (if k \<in> set ranked
      then (1 - real (index_of ranked k) / real (length ranked)) * weight
      else 0)"

definition fused :: "string list \<Rightarrow> string list \<Rightarrow> real \<Rightarrow> string \<Rightarrow> real" where
  "fused semantic lexical w k = contribution semantic w k + contribution lexical (1 - w) k"

text \<open>
  Which notes of a reindex succeed, given the outcomes of the writes that follow the one
  of \<open>clear\<close>: a note with an empty content or an empty ID fails before anything is
  written; every other note takes the next write, and succeeds when that write and both
  database calls succeed.
\<close>

definition reaches_store :: "Note \<Rightarrow> bool" where
  "reaches_store n = (content n \<noteq> [] \<and> note_id n \<noteq> [])"

fun outcomes :: "collaborators \<Rightarrow> bool list \<Rightarrow> Note list \<Rightarrow> bool list" where
  "outcomes c faults [] = []"
| "outcomes c faults (n # ns) =
     (if reaches_store n
      then ((case faults of [] \<Rightarrow> True | failing # later \<Rightarrow> \<not> failing)
            \<and> \<not> embedding_upsert_fails c (note_id n) \<and> \<not> note_update_fails c (note_id n))
           # outcomes c (tl faults) ns
      else False # outcomes c faults ns)"

section \<open>Example states\<close>

text \<open>
  A file system with no index file and no faults, and the state after one \<open>addVector\<close>
  on a new store of dimension 2: the note \<open>n1\<close> with vector \<open>[3, 4]\<close> and category
  \<open>work\<close>.
\<close>

definition disk0 :: fs where
  "disk0 = \<lparr>indexFile = None, read_fault = False, write_faults = []\<rparr>"

definition state1 :: "VectorStore \<times> fs" where
  "state1 =
     snd (addVector (Some ''n1'') (Some [3, 4]) [''category'' \<mapsto> JStr ''work''] ''t1''
            (VectorStore_new 2 5) disk0)"

text \<open>
  The ranked lists of the hybrid example: the semantic hits \<open>A, B, C\<close> and the lexical
  notes \<open>B, D\<close>.
\<close>

definition semABC :: "hit list" where
  "semABC =
     [\<lparr>id_of = ''A'', score = 9 / 10, metadata_of = Map.empty\<rparr>,
      \<lparr>id_of = ''B'', score = 8 / 10, metadata_of = Map.empty\<rparr>,
      \<lparr>id_of = ''C'', score = 1 / 10, metadata_of = Map.empty\<rparr>]"

definition kwBD :: "Note list" where
  "kwBD = [\<lparr>note_id = ''B'', content = ''b''\<rparr>, \<lparr>note_id = ''D'', content = ''d''\<rparr>]"

text \<open>
  The reindex example: 25 notes, of which \<open>n04\<close>, \<open>n11\<close> and \<open>n19\<close> have an empty
  content, so that \<open>generateEmbedding\<close> throws for these three; collaborators whose
  database calls succeed and whose backend returns a fixed vector.
\<close>

definition notes25 :: "Note list" where
  "notes25 =
     [\<lparr>note_id = ''n01'', content = ''text 01''\<rparr>,
      \<lparr>note_id = ''n02'', content = ''text 02''\<rparr>,
      \<lparr>note_id = ''n03'', content = ''text 03''\<rparr>,
      \<lparr>note_id = ''n04'', content = ''''\<rparr>,
      \<lparr>note_id = ''n05'', content = ''text 05''\<rparr>,
      \<lparr>note_id = ''n06'', content = ''text 06''\<rparr>,
      \<lparr>note_id = ''n07'', content = ''text 07''\<rparr>,
      \<lparr>note_id = ''n08'', content = ''text 08''\<rparr>,
      \<lparr>note_id = ''n09'', content = ''text 09''\<rparr>,
      \<lparr>note_id = ''n10'', content = ''text 10''\<rparr>,
      \<lparr>note_id = ''n11'', content = ''''\<rparr>,
      \<lparr>note_id = ''n12'', content = ''text 12''\<rparr>,
      \<lparr>note_id = ''n13'', content = ''text 13''\<rparr>,
      \<lparr>note_id = ''n14'', content = ''text 14''\<rparr>,
      \<lparr>note_id = ''n15'', content = ''text 15''\<rparr>,
      \<lparr>note_id = ''n16'', content = ''text 16''\<rparr>,
      \<lparr>note_id = ''n17'', content = ''text 17''\<rparr>,
      \<lparr>note_id = ''n18'', content = ''text 18''\<rparr>,
      \<lparr>note_id = ''n19'', content = ''''\<rparr>,
      \<lparr>note_id = ''n20'', content = ''text 20''\<rparr>,
      \<lparr>note_id = ''n21'', content = ''text 21''\<rparr>,
      \<lparr>note_id = ''n22'', content = ''text 22''\<rparr>,
      \<lparr>note_id = ''n23'', content = ''text 23''\<rparr>,
      \<lparr>note_id = ''n24'', content = ''text 24''\<rparr>,
      \<lparr>note_id = ''n25'', content = ''text 25''\<rparr>]"

definition steady :: collaborators where
  "steady =
     \<lparr>backend = (\<lambda>text. [1, 0]),
      embedding_upsert_fails = (\<lambda>i. False),
      note_update_fails = (\<lambda>i. False)\<rparr>"

text \<open>
  The search example: a store of dimension 2 after six \<open>addVector\<close> calls. For the query
  \<open>[3, 4]\<close> the records \<open>n1\<close>, \<open>n3\<close>, \<open>n4\<close> and \<open>n5\<close> score 1, \<open>n2\<close> scores 24/25
  and \<open>n6\<close> scores 3/5; \<open>n4\<close> has another category than the rest.
\<close>

definition store6 :: VectorStore where
  "store6 =
     foldl (\<lambda>s (i, v, c).
              case addVector_sync (Some i) (Some v) [''category'' \<mapsto> JStr c] ''t1'' s of
                Inl e \<Rightarrow> s
              | Inr s' \<Rightarrow> s')
       (VectorStore_new 2 5)
       [(''n1'', [3, 4], ''work''), (''n2'', [4, 3], ''work''), (''n3'', [3, 4], ''work''),
        (''n4'', [3, 4], ''home''), (''n5'', [3, 4], ''work''), (''n6'', [1, 0], ''work'')]"

definition work_filter :: filter where
  "work_filter = \<lparr>excludeIds = Some [''n5''], category = Some (JStr ''work'')\<rparr>"

text \<open>
  A reindex with failures of every kind: of four notes the first has no content, the
  second meets a failing write, the third a failing \<open>Note.findByIdAndUpdate\<close>, and the
  fourth succeeds. The first write, the one of \<open>clear\<close>, succeeds.
\<close>

definition notes4 :: "Note list" where
  "notes4 =
     [\<lparr>note_id = ''a'', content = []\<rparr>, \<lparr>note_id = ''b'', content = ''text b''\<rparr>,
      \<lparr>note_id = ''c'', content = ''text c''\<rparr>, \<lparr>note_id = ''d'', content = ''text d''\<rparr>]"

definition flaky :: collaborators where
  "flaky =
     \<lparr>backend = (\<lambda>text. [1, 0]),
      embedding_upsert_fails = (\<lambda>i. False),
      note_update_fails = (\<lambda>i. i = ''c'')\<rparr>"

definition flaky_disk :: fs where
  "flaky_disk = \<lparr>indexFile = None, read_fault = False, write_faults = [False, True]\<rparr>"

declare dot_unrolled.simps [simp del] dot_rest.simps [simp del] cosine_loop.simps [simp del]
  reindex_batches.simps [simp del]

section \<open>Facts about the similarity engine\<close>

lemma foldl_squares: "foldl (\<lambda>m x. m + x * x) a xs = a + (\<Sum>x\<leftarrow>xs. x * x)"
  by (induction xs arbitrary: a) (simp_all add: add.assoc)

lemma magnitude_sum: "magnitude v = sqrt (\<Sum>j<length v. v ! j * v ! j)"
proof -
  have "(\<Sum>x\<leftarrow>v. x * x) = (\<Sum>j<length v. v ! j * v ! j)"
    by (simp add: sum_list_sum_nth atLeast0LessThan)
  then show ?thesis
    by (simp add: magnitude_def foldl_squares)
qed

lemma dot_rest_sum:
  "dot_rest a b len i s = s + (\<Sum>j = i..<len. a ! j * b ! j)"
proof (induction a b len i s rule: dot_rest.induct)
  case (1 a b len i s)
  show ?case
  proof (cases "i < len")
    case True
    with "1" show ?thesis
      by (subst dot_rest.simps) (simp add: sum.atLeast_Suc_lessThan add.assoc)
  next
    case False
    then show ?thesis by (subst dot_rest.simps) simp
  qed
qed

lemma dot_unrolled_sum:
  "i \<le> len \<Longrightarrow> dot_unrolled a b len i s = (i', s') \<Longrightarrow>
     i \<le> i' \<and> i' \<le> len \<and> s' = s + (\<Sum>j = i..<i'. a ! j * b ! j)"
proof (induction a b len i s rule: dot_unrolled.induct)
  case (1 a b len i s)
  show ?case
  proof (cases "i + 3 < len")
    case True
    let ?s4 = "s + a ! i * b ! i + a ! (i + 1) * b ! (i + 1)
                 + a ! (i + 2) * b ! (i + 2) + a ! (i + 3) * b ! (i + 3)"
    from True "1.prems" have call: "dot_unrolled a b len (i + 4) ?s4 = (i', s')"
      by (subst (asm) dot_unrolled.simps) simp
    from True have "i + 4 \<le> len" by simp
    from "1.IH" [OF True this call]
    have ih: "i + 4 \<le> i'" "i' \<le> len" "s' = ?s4 + (\<Sum>j = i + 4..<i'. a ! j * b ! j)"
      by simp_all
    have split: "{i..<i'} = {i..<i + 4} \<union> {i + 4..<i'}"
      using ih(1) by auto
    have four: "(\<Sum>j = i..<i + 4. a ! j * b ! j)
                  = a ! i * b ! i + a ! (i + 1) * b ! (i + 1)
                    + a ! (i + 2) * b ! (i + 2) + a ! (i + 3) * b ! (i + 3)"
      by (simp add: numeral_eq_Suc add.assoc)
    have "(\<Sum>j = i..<i'. a ! j * b ! j)
            = (\<Sum>j = i..<i + 4. a ! j * b ! j) + (\<Sum>j = i + 4..<i'. a ! j * b ! j)"
      unfolding split by (rule sum.union_disjoint) auto
    with ih four show ?thesis by simp
  next
    case False
    with "1.prems" show ?thesis by (subst (asm) dot_unrolled.simps) simp
  qed
qed

lemma dotProduct_sum:
  "dotProduct a b = (\<Sum>j<min (length a) (length b). a ! j * b ! j)"
proof -
  let ?len = "min (length a) (length b)"
  obtain i s where u: "dot_unrolled a b ?len 0 0 = (i, s)"
    by (cases "dot_unrolled a b ?len 0 0")
  from dot_unrolled_sum [OF _ u]
  have i: "i \<le> ?len" and s: "s = (\<Sum>j = 0..<i. a ! j * b ! j)"
    by simp_all
  have "{0..<?len} = {0..<i} \<union> {i..<?len}"
    using i by auto
  then have "(\<Sum>j = 0..<?len. a ! j * b ! j)
               = (\<Sum>j = 0..<i. a ! j * b ! j) + (\<Sum>j = i..<?len. a ! j * b ! j)"
    by (metis sum.atLeastLessThan_concat i le0)
  with u s show ?thesis
    by (simp add: dotProduct_def dot_rest_sum atLeast0LessThan)
qed

lemma cosine_loop_sum:
  "cosine_loop a b len i (d, na, nb) =
     (d + (\<Sum>j = i..<len. a ! j * b ! j),
      na + (\<Sum>j = i..<len. a ! j * a ! j),
      nb + (\<Sum>j = i..<len. b ! j * b ! j))"
proof (induction a b len i "(d, na, nb)" arbitrary: d na nb rule: cosine_loop.induct)
  case (1 a b len i d na nb)
  show ?case
  proof (cases "i < len")
    case True
    with "1" show ?thesis
      by (subst cosine_loop.simps) (simp add: sum.atLeast_Suc_lessThan add.assoc)
  next
    case False
    then show ?thesis by (subst cosine_loop.simps) simp
  qed
qed

lemma length_normalizeVector: "length (normalizeVector v) = length v"
  by (simp add: normalizeVector_def)

lemma nth_normalizeVector:
  "magnitude v \<noteq> 0 \<Longrightarrow> j < length v \<Longrightarrow> normalizeVector v ! j = v ! j / magnitude v"
  by (simp add: normalizeVector_def)


lemma cosineSimilarity_sum:
  "cosineSimilarity a b =
     (let n = min (length a) (length b);
          na = sqrt (\<Sum>j<n. a ! j * a ! j);
          nb = sqrt (\<Sum>j<n. b ! j * b ! j)
      in if na = 0 \<or> nb = 0 then 0 else (\<Sum>j<n. a ! j * b ! j) / (na * nb))"
  by (simp add: cosineSimilarity_def cosine_loop_sum Let_def atLeast0LessThan)

text \<open>
  C8 (amended). For two vectors of the same length, each of nonzero magnitude, the dot
  product of their normalized forms equals their cosine similarity. Equal length is
  needed: \<open>cosineSimilarity\<close> takes both norms over the shared prefix, while
  \<open>normalizeVector\<close> divides by the norm of the whole vector.
\<close>

theorem dot_normalized_eq_cosine:
  assumes len: "length a = length b"
    and ma: "magnitude a \<noteq> 0" and mb: "magnitude b \<noteq> 0"
  shows "dotProduct (normalizeVector a) (normalizeVector b) = cosineSimilarity a b"
proof -
  let ?n = "length b"
  have "dotProduct (normalizeVector a) (normalizeVector b)
          = (\<Sum>j<?n. (a ! j / magnitude a) * (b ! j / magnitude b))"
    using len ma mb
    by (simp add: dotProduct_sum length_normalizeVector nth_normalizeVector)
  also have "\<dots> = (\<Sum>j<?n. a ! j * b ! j / (magnitude a * magnitude b))"
    by simp
  also have "\<dots> = (\<Sum>j<?n. a ! j * b ! j) / (magnitude a * magnitude b)"
    by (simp add: sum_divide_distrib)
  also have "\<dots> = cosineSimilarity a b"
    using len ma mb
    by (simp add: cosineSimilarity_sum magnitude_sum Let_def)
  finally show ?thesis .
qed

lemma sqrt_25: "sqrt 25 = 5"
  by (rule real_sqrt_unique) simp_all

theorem dot_normalized_eq_cosine_witness:
  "length [3, 4 :: real] = length [4, 3 :: real] \<and> magnitude [3, 4] \<noteq> 0 \<and> magnitude [4, 3] \<noteq> 0
   \<and> dotProduct (normalizeVector [3, 4]) (normalizeVector [4, 3]) = cosineSimilarity [3, 4] [4, 3]"
proof -
  have m1: "magnitude [3, 4] \<noteq> 0" and m2: "magnitude [4, 3] \<noteq> 0"
    by (simp_all add: magnitude_def sqrt_25)
  have l: "length [3, 4 :: real] = length [4, 3 :: real]" by simp
  from dot_normalized_eq_cosine [OF l m1 m2] l m1 m2 show ?thesis by simp
qed

text \<open>
  C8 as stated fails for vectors of different lengths: for \<open>[3, 4]\<close> and \<open>[1]\<close> the dot
  product of the normalized vectors is \<open>3/5\<close>, the cosine similarity is \<open>1\<close>.
\<close>

theorem dot_normalized_vs_cosine_counterexample:
  "magnitude [3, 4] \<noteq> 0 \<and> magnitude [1] \<noteq> 0
   \<and> dotProduct (normalizeVector [3, 4]) (normalizeVector [1])
       \<noteq> cosineSimilarity [3, 4] [1]"
  by (simp add: magnitude_def sqrt_25 normalizeVector_def dotProduct_sum cosineSimilarity_sum)

section \<open>Facts about Map and objects\<close>

lemma Map_set_update: "Map_set k v m = AList.update k v m"
  by (induction m) auto

lemma Map_delete_delete: "Map_delete k m = AList.delete k m"
  by (induction m) auto

lemma map_of_Map_set: "map_of (Map_set k v m) = (map_of m)(k \<mapsto> v)"
  by (simp add: Map_set_update update_conv')

lemma keys_Map_set:
  "Map_keys (Map_set k v m) = (if k \<in> set (Map_keys m) then Map_keys m else Map_keys m @ [k])"
  by (simp add: Map_keys_def Map_set_update update_keys)

lemma set_keys_Map_set: "set (Map_keys (Map_set k v m)) = insert k (set (Map_keys m))"
  by (auto simp: keys_Map_set)

lemma Map_wf_Map_set: "Map_wf m \<Longrightarrow> Map_wf (Map_set k v m)"
  by (simp add: Map_wf_def keys_Map_set)

lemma map_of_Map_delete: "map_of (Map_delete k m) = (map_of m)(k := None)"
  by (simp add: Map_delete_delete delete_conv')

lemma keys_Map_delete: "Map_keys (Map_delete k m) = removeAll k (Map_keys m)"
  by (simp add: Map_keys_def Map_delete_delete delete_keys)

lemma Map_wf_Map_delete: "Map_wf m \<Longrightarrow> Map_wf (Map_delete k m)"
  by (simp add: Map_wf_def keys_Map_delete distinct_removeAll)

lemma Map_delete_absent: "k \<notin> set (Map_keys m) \<Longrightarrow> Map_delete k m = m"
  by (simp add: Map_keys_def Map_delete_delete)

lemma Map_has_keys: "Map_has m k \<longleftrightarrow> k \<in> set (Map_keys m)"
  by (simp add: Map_has_def Map_keys_def map_of_eq_None_iff)

lemma foldl_Map_set_distinct:
  "distinct (map fst (acc @ es)) \<Longrightarrow>
     foldl (\<lambda>m e. Map_set (fst e) (snd e) m) acc es = acc @ es"
proof (induction es arbitrary: acc)
  case Nil
  then show ?case by simp
next
  case (Cons e es)
  from Cons.prems have "fst e \<notin> fst ` set acc"
    by auto
  then have "Map_set (fst e) (snd e) acc = acc @ [e]"
    by (induction acc) auto
  with Cons.IH [of "acc @ [e]"] Cons.prems show ?case
    by simp
qed

lemma Map_new_wf: "Map_wf es \<Longrightarrow> Map_new es = es"
  using foldl_Map_set_distinct [of "[]" es]
  by (simp add: Map_new_def Map_wf_def Map_keys_def)

lemma set_own_property_order: "set (own_property_order ps) = set ps"
  by (auto simp: own_property_order_def)

lemma Map_wf_own_property_order:
  assumes "Map_wf ps"
  shows "Map_wf (own_property_order ps)"
proof -
  from assms have d: "distinct ps" and inj: "inj_on fst (set ps)"
    by (simp_all add: Map_wf_def Map_keys_def distinct_map)
  have "distinct (own_property_order ps)"
    using d by (auto simp: own_property_order_def)
  with inj show ?thesis
    by (simp add: Map_wf_def Map_keys_def distinct_map set_own_property_order)
qed

lemma map_of_own_property_order:
  assumes "Map_wf ps"
  shows "map_of (own_property_order ps) = map_of ps"
proof -
  have "distinct (map fst (own_property_order ps))"
    using Map_wf_own_property_order [OF assms] by (simp add: Map_wf_def Map_keys_def)
  moreover have "distinct (map fst ps)"
    using assms by (simp add: Map_wf_def Map_keys_def)
  ultimately show ?thesis
    by (simp add: map_of_inject_set set_own_property_order)
qed

lemma set_keys_own_property_order:
  "set (Map_keys (own_property_order ps)) = set (Map_keys ps)"
  by (simp add: Map_keys_def set_own_property_order)

lemma Object_fromEntries_wf:
  assumes "Map_wf m"
  shows "Map_wf (Object_fromEntries m)"
    and "map_of (Object_fromEntries m) = map_of m"
    and "set (Map_keys (Object_fromEntries m)) = set (Map_keys m)"
  using assms
  by (simp_all add: Object_fromEntries_def Map_new_wf Map_wf_own_property_order
      map_of_own_property_order set_keys_own_property_order)

section \<open>Facts about the store operations\<close>

lemma save_cases:
  "save s now d =
     (if next_write_ok d
      then (Inr (), d\<lparr>indexFile := Some (Doc \<lparr>snap_dimension = Some (dimension s),
                          snap_vectors = Some (Object_fromEntries (vectors s)),
                          snap_metadata = Some (Object_fromEntries (metadata s)),
                          savedAt = now\<rparr>),
                      write_faults := tl (write_faults d)\<rparr>)
      else (Inl (FsError ''EIO''), d\<lparr>write_faults := tl (write_faults d)\<rparr>))"
  by (cases "write_faults d") (simp_all add: save_def fs_writeFile_def next_write_ok_def)

lemma save_file_ok:
  "store_ok s \<Longrightarrow> file_ok d \<Longrightarrow> save s now d = (r, d') \<Longrightarrow> file_ok d'"
  by (auto simp: save_cases file_ok_def store_ok_def keys_agree_def Object_fromEntries_wf
      split: if_splits)

lemma save_result:
  "save s now d = (r, d') \<Longrightarrow> r = (if next_write_ok d then Inr () else Inl (FsError ''EIO''))"
  by (auto simp: save_cases split: if_splits)

lemma rebuild_fold_fields:
  "vectors (foldl (\<lambda>st i. st\<lparr>idToIndex := Map_set i (length (indexToId st)) (idToIndex st),
                              indexToId := indexToId st @ [i]\<rparr>) st ks) = vectors st
   \<and> metadata (foldl (\<lambda>st i. st\<lparr>idToIndex := Map_set i (length (indexToId st)) (idToIndex st),
                              indexToId := indexToId st @ [i]\<rparr>) st ks) = metadata st
   \<and> dimension (foldl (\<lambda>st i. st\<lparr>idToIndex := Map_set i (length (indexToId st)) (idToIndex st),
                              indexToId := indexToId st @ [i]\<rparr>) st ks) = dimension st
   \<and> topK (foldl (\<lambda>st i. st\<lparr>idToIndex := Map_set i (length (indexToId st)) (idToIndex st),
                              indexToId := indexToId st @ [i]\<rparr>) st ks) = topK st"
  by (induction ks arbitrary: st) simp_all

lemma rebuild_mappings_fields:
  "vectors (rebuild_mappings s) = vectors s \<and> metadata (rebuild_mappings s) = metadata s
   \<and> dimension (rebuild_mappings s) = dimension s \<and> topK (rebuild_mappings s) = topK s"
  by (simp add: rebuild_mappings_def rebuild_fold_fields)

lemma addVector_invalid:
  "id' = None \<or> id' = Some [] \<or> vector' = None \<Longrightarrow>
     addVector id' vector' meta now s d = (Inl (Error ''ID and vector are required''), s, d)"
  by (auto simp: addVector_def addVector_sync_def split: option.splits)

lemma addVector_valid:
  assumes "i \<noteq> []" and "addVector (Some i) (Some v) meta now s d = (r, s', d')"
  shows "vectors s' = Map_set i (processedVector (dimension s) v) (vectors s)"
    and "metadata s' = Map_set i (meta(''addedAt'' \<mapsto> JStr now)) (metadata s)"
    and "dimension s' = dimension s" and "topK s' = topK s"
    and "save s' now d = (r, d')"
  using assms
  by (auto simp: addVector_def addVector_sync_def Let_def save_def split: prod.splits if_splits)

lemma updateVector_present:
  assumes "Map_has (vectors s) i" and "updateVector i v meta now s d = (r, s', d')"
  shows "vectors s' = Map_set i (processedVector (dimension s) v) (vectors s)"
    and "metadata s' =
           Map_set i (((case map_of (metadata s) i of None \<Rightarrow> Map.empty | Some m \<Rightarrow> m) ++ meta)
                        (''updatedAt'' \<mapsto> JStr now)) (metadata s)"
    and "dimension s' = dimension s" and "topK s' = topK s"
    and "save s' now d = (r, d')"
  using assms
  by (auto simp: updateVector_def Let_def split: prod.splits if_splits)

lemma updateVector_absent:
  "\<not> Map_has (vectors s) i \<Longrightarrow>
     updateVector i v meta now s d = addVector (Some i) (Some v) meta now s d"
  by (simp add: updateVector_def)

lemma removeVector_fields:
  assumes "removeVector i now s d = (r, s', d')"
  shows "vectors s' = Map_delete i (vectors s)"
    and "metadata s' = Map_delete i (metadata s)"
    and "dimension s' = dimension s" and "topK s' = topK s"
    and "if Map_has (vectors s) i then (\<exists>r0. save s' now d = (r0, d')) else d' = d"
  using assms
  by (auto simp: removeVector_def Let_def split: prod.splits if_splits sum.splits)

lemma clear_fields:
  assumes "clear now s d = (r, s', d')"
  shows "vectors s' = []" and "metadata s' = []"
    and "dimension s' = dimension s" and "topK s' = topK s"
    and "save s' now d = (r, d')"
  using assms
  by (auto simp: clear_def Let_def split: prod.splits)

lemma store_ok_set:
  assumes "store_ok s"
    and "vectors s' = Map_set i v (vectors s)" and "metadata s' = Map_set i m (metadata s)"
  shows "store_ok s'"
  using assms
  by (simp add: store_ok_def keys_agree_def Map_wf_Map_set set_keys_Map_set)

lemma store_ok_delete:
  assumes "store_ok s"
    and "vectors s' = Map_delete i (vectors s)" and "metadata s' = Map_delete i (metadata s)"
  shows "store_ok s'"
  using assms
  by (simp add: store_ok_def keys_agree_def Map_wf_Map_delete keys_Map_delete)

lemma store_ok_empty: "vectors s = [] \<Longrightarrow> metadata s = [] \<Longrightarrow> store_ok s"
  by (simp add: store_ok_def keys_agree_def Map_wf_def Map_keys_def)

lemma addVector_ok:
  assumes "store_ok s" and "file_ok d" and "addVector id' vector' meta now s d = (r, s', d')"
  shows "store_ok s' \<and> file_ok d'"
proof (cases "id' = None \<or> id' = Some [] \<or> vector' = None")
  case True
  from addVector_invalid [OF True] assms show ?thesis by simp
next
  case False
  then obtain i v where iv: "id' = Some i" "i \<noteq> []" "vector' = Some v"
    by auto
  note f = addVector_valid [OF iv(2) assms(3) [unfolded iv(1) iv(3)]]
  have "store_ok s'"
    by (rule store_ok_set [OF assms(1) f(1) f(2)])
  with save_file_ok [OF _ assms(2) f(5)] show ?thesis by simp
qed

lemma updateVector_ok:
  assumes "store_ok s" and "file_ok d" and "updateVector i v meta now s d = (r, s', d')"
  shows "store_ok s' \<and> file_ok d'"
proof (cases "Map_has (vectors s) i")
  case True
  note f = updateVector_present [OF True assms(3)]
  have "store_ok s'"
    by (rule store_ok_set [OF assms(1) f(1) f(2)])
  with save_file_ok [OF _ assms(2) f(5)] show ?thesis by simp
next
  case False
  with assms(3) have "addVector (Some i) (Some v) meta now s d = (r, s', d')"
    by (simp add: updateVector_absent)
  then show ?thesis
    by (rule addVector_ok [OF assms(1) assms(2)])
qed

lemma removeVector_ok:
  assumes "store_ok s" and "file_ok d" and "removeVector i now s d = (r, s', d')"
  shows "store_ok s' \<and> file_ok d'"
proof -
  note f = removeVector_fields [OF assms(3)]
  have ok: "store_ok s'"
    by (rule store_ok_delete [OF assms(1) f(1) f(2)])
  show ?thesis
  proof (cases "Map_has (vectors s) i")
    case True
    with f(5) obtain r0 where "save s' now d = (r0, d')" by auto
    with save_file_ok [OF ok assms(2)] ok show ?thesis by simp
  next
    case False
    with f(5) ok assms(2) show ?thesis by simp
  qed
qed

lemma clear_ok:
  assumes "file_ok d" and "clear now s d = (r, s', d')"
  shows "store_ok s' \<and> file_ok d'"
proof -
  note f = clear_fields [OF assms(2)]
  have ok: "store_ok s'"
    by (rule store_ok_empty [OF f(1) f(2)])
  with save_file_ok [OF ok assms(1) f(5)] show ?thesis by simp
qed

lemma load_cases:
  "load s d =
     (case indexFile d of
        None \<Rightarrow> (Inr (), s)
      | Some c \<Rightarrow>
          if read_fault d then (Inl (FsError ''EIO''), s)
          else (case c of
                  NotJSON \<Rightarrow> (Inl SyntaxError, s)
                | Doc parsed \<Rightarrow>
                    (Inr (), rebuild_mappings
                       (s\<lparr>vectors := Map_new (case snap_vectors parsed of None \<Rightarrow> [] | Some ob \<Rightarrow> ob),
                          metadata := Map_new (case snap_metadata parsed of None \<Rightarrow> [] | Some ob \<Rightarrow> ob)\<rparr>))))"
  by (simp add: load_def fs_readFile_def Object_entries_def Let_def
      split: option.splits file_content.splits)

lemma load_ok:
  assumes "store_ok s" and "file_ok d" and "load s d = (r, s')"
  shows "store_ok s'"
proof (cases "indexFile d")
  case None
  with assms show ?thesis by (simp add: load_cases)
next
  case (Some c)
  show ?thesis
  proof (cases "read_fault d")
    case True
    with Some assms show ?thesis by (simp add: load_cases)
  next
    case False
    from Some assms(2) obtain p vs ms where
      c: "c = Doc p" and p: "snap_vectors p = Some vs" "snap_metadata p = Some ms"
      and wf: "Map_wf vs" "Map_wf ms" "set (Map_keys vs) = set (Map_keys ms)"
      by (auto simp: file_ok_def split: file_content.splits option.splits)
    from assms(3) Some False c p
    have "s' = rebuild_mappings (s\<lparr>vectors := Map_new vs, metadata := Map_new ms\<rparr>)"
      by (simp add: load_cases)
    with wf show ?thesis
      by (simp add: store_ok_def keys_agree_def rebuild_mappings_fields Map_new_wf)
  qed
qed

lemma reachable_ok: "reachable sd \<Longrightarrow> store_ok (fst sd) \<and> file_ok (snd sd)"
proof (induction rule: reachable.induct)
  case (init dm k rf faults)
  show ?case
    by (simp add: store_ok_empty VectorStore_new_def file_ok_def)
next
  case (add s d i v meta now r s' d')
  from add.IH have "store_ok s" "file_ok d" by simp_all
  from addVector_ok [OF this add.hyps(2)] show ?case by simp
next
  case (update s d i v meta now r s' d')
  from update.IH have "store_ok s" "file_ok d" by simp_all
  from updateVector_ok [OF this update.hyps(2)] show ?case by simp
next
  case (remove s d i now rb s' d')
  from remove.IH have "store_ok s" "file_ok d" by simp_all
  from removeVector_ok [OF this remove.hyps(2)] show ?case by simp
next
  case (clear s d now r s' d')
  from clear.IH have "file_ok d" by simp
  from clear_ok [OF this clear.hyps(2)] show ?case by simp
next
  case (save s d now r d')
  from save.IH have ok: "store_ok s" "file_ok d" by simp_all
  from save_file_ok [OF ok save.hyps(2)] ok(1) show ?case by simp
next
  case (load s d r s')
  from load.IH have ok: "store_ok s" "file_ok d" by simp_all
  from load_ok [OF ok load.hyps(2)] ok(2) show ?case by simp
next
  case (restart s d dm k)
  then show ?case by (simp add: store_ok_empty VectorStore_new_def)
next
  case (environment s d rf faults)
  then show ?case by (simp add: file_ok_def)
qed

lemma reachable_store_ok: "reachable (s, d) \<Longrightarrow> store_ok s"
  by (drule reachable_ok) simp

lemma reachable_file_ok: "reachable (s, d) \<Longrightarrow> file_ok d"
  by (drule reachable_ok) simp

section \<open>The example states\<close>

lemma not_index_n1: "\<not> is_array_index ''n1''"
  by (simp add: is_array_index_def is_digit_def)

lemma fromEntries_n1: "Object_fromEntries [(''n1'', x)] = [(''n1'', x)]"
  by (simp add: Object_fromEntries_def Map_new_def own_property_order_def not_index_n1)

lemma state1_eval:
  "state1 =
     (\<lparr>vectors = [(''n1'', [3, 4])],
       metadata = [(''n1'', [''category'' \<mapsto> JStr ''work'', ''addedAt'' \<mapsto> JStr ''t1''])],
       dimension = 2, topK = 5, idToIndex = [(''n1'', 0)], indexToId = [''n1'']\<rparr>,
      \<lparr>indexFile = Some (Doc \<lparr>snap_dimension = Some 2, snap_vectors = Some [(''n1'', [3, 4])],
           snap_metadata =
             Some [(''n1'', [''category'' \<mapsto> JStr ''work'', ''addedAt'' \<mapsto> JStr ''t1''])],
           savedAt = ''t1''\<rparr>),
        read_fault = False, write_faults = []\<rparr>)"
  by (simp add: state1_def addVector_def addVector_sync_def VectorStore_new_def disk0_def processedVector_def
      Map_has_def save_def fs_writeFile_def fromEntries_n1 Let_def)

lemma reachable_state1: "reachable state1"
proof -
  have "reachable (VectorStore_new 2 5, disk0)"
    unfolding disk0_def by (rule reachable.init)
  moreover have "addVector (Some ''n1'') (Some [3, 4]) [''category'' \<mapsto> JStr ''work''] ''t1''
            (VectorStore_new 2 5) disk0
          = (fst (addVector (Some ''n1'') (Some [3, 4]) [''category'' \<mapsto> JStr ''work''] ''t1''
            (VectorStore_new 2 5) disk0), fst state1, snd state1)"
    by (simp add: state1_def)
  ultimately have "reachable (fst state1, snd state1)"
    by (rule reachable.add)
  then show ?thesis by simp
qed

lemma length_processedVector: "length (processedVector n v) = n"
  by (simp add: processedVector_def)

section \<open>Claims about the store operations\<close>

text \<open>
  C2 (failing input). A snapshot saved by a store of dimension 2 is loaded by a store
  configured with dimension 3: \<open>load\<close> succeeds, the store keeps dimension 3, and
  \<open>getVector\<close> returns the vector of \<open>n1\<close> with its 2 components. \<open>load\<close> installs the
  stored vectors as they are.
\<close>

theorem load_keeps_stored_length:
  "reachable state1
   \<and> (\<exists>s'. load (VectorStore_new 3 5) (snd state1) = (Inr (), s')
          \<and> dimension s' = 3
          \<and> getVector ''n1'' s' = Some [3, 4]
          \<and> map_option length (getVector ''n1'' s') = Some 2)"
proof -
  have "\<exists>s'. load (VectorStore_new 3 5) (snd state1) = (Inr (), s')
          \<and> dimension s' = 3
          \<and> getVector ''n1'' s' = Some [3, 4]
          \<and> map_option length (getVector ''n1'' s') = Some 2"
    by (simp add: state1_eval load_cases VectorStore_new_def Map_new_def
        rebuild_mappings_fields getVector_def)
  then show ?thesis
    by (rule conjI [OF reachable_state1])
qed

text \<open>
  C9. In a reachable state, \<open>removeVector\<close> of an ID that has no record returns
  \<open>false\<close> and leaves the store and the file system (the snapshot with its \<open>savedAt\<close>)
  exactly as they were: nothing is written. For an ID that has a record, the record is
  gone from both maps afterwards, the other records are untouched, one write is
  attempted, and when it succeeds the call returns \<open>true\<close> and the file holds the
  snapshot of the new state.
\<close>

theorem removeVector_effect:
  assumes "reachable (s, d)"
  shows "(\<not> Map_has (vectors s) i \<longrightarrow> removeVector i now s d = (Inr False, s, d))
       \<and> (Map_has (vectors s) i \<longrightarrow>
            (\<exists>r s' d'. removeVector i now s d = (r, s', d')
               \<and> getVector i s' = None \<and> \<not> Map_has (metadata s') i
               \<and> (\<forall>j. j \<noteq> i \<longrightarrow> getVector j s' = getVector j s)
               \<and> write_faults d' = tl (write_faults d)
               \<and> (if next_write_ok d
                   then r = Inr True
                        \<and> indexFile d' =
                            Some (Doc \<lparr>snap_dimension = Some (dimension s'),
                                       snap_vectors = Some (Object_fromEntries (vectors s')),
                                       snap_metadata = Some (Object_fromEntries (metadata s')),
                                       savedAt = now\<rparr>)
                   else r = Inl (FsError ''EIO'') \<and> indexFile d' = indexFile d)))"
proof (intro conjI impI)
  assume absent: "\<not> Map_has (vectors s) i"
  from reachable_store_ok [OF assms] have "keys_agree s"
    by (simp add: store_ok_def)
  with absent have "i \<notin> set (Map_keys (vectors s))" "i \<notin> set (Map_keys (metadata s))"
    by (simp_all add: Map_has_keys keys_agree_def)
  then have "Map_delete i (vectors s) = vectors s" "Map_delete i (metadata s) = metadata s"
    by (simp_all add: Map_delete_absent)
  with absent show "removeVector i now s d = (Inr False, s, d)"
    by (simp add: removeVector_def)
next
  assume present: "Map_has (vectors s) i"
  obtain r s' d' where rm: "removeVector i now s d = (r, s', d')"
    by (cases "removeVector i now s d") auto
  note f = removeVector_fields [OF rm]
  from f(5) present obtain r0 where sv: "save s' now d = (r0, d')"
    by auto
  have r: "r = (if next_write_ok d then Inr True else Inl (FsError ''EIO''))"
    using rm present
    by (auto simp: removeVector_def Let_def save_cases split: if_splits)
  have g: "getVector i s' = None" "\<not> Map_has (metadata s') i"
    "\<forall>j. j \<noteq> i \<longrightarrow> getVector j s' = getVector j s"
    using f(1) f(2) by (simp_all add: getVector_def Map_has_def map_of_Map_delete)
  from sv have "write_faults d' = tl (write_faults d)"
    by (auto simp: save_cases split: if_splits)
  moreover from sv have "if next_write_ok d
      then indexFile d' = Some (Doc \<lparr>snap_dimension = Some (dimension s'),
                                       snap_vectors = Some (Object_fromEntries (vectors s')),
                                       snap_metadata = Some (Object_fromEntries (metadata s')),
                                       savedAt = now\<rparr>)
      else indexFile d' = indexFile d"
    by (auto simp: save_cases split: if_splits)
  ultimately show "\<exists>r s' d'. removeVector i now s d = (r, s', d')
               \<and> getVector i s' = None \<and> \<not> Map_has (metadata s') i
               \<and> (\<forall>j. j \<noteq> i \<longrightarrow> getVector j s' = getVector j s)
               \<and> write_faults d' = tl (write_faults d)
               \<and> (if next_write_ok d
                   then r = Inr True
                        \<and> indexFile d' =
                            Some (Doc \<lparr>snap_dimension = Some (dimension s'),
                                       snap_vectors = Some (Object_fromEntries (vectors s')),
                                       snap_metadata = Some (Object_fromEntries (metadata s')),
                                       savedAt = now\<rparr>)
                   else r = Inl (FsError ''EIO'') \<and> indexFile d' = indexFile d)"
    using rm r g by (intro exI [of _ r] exI [of _ s'] exI [of _ d']) (simp split: if_splits)
qed

theorem removeVector_effect_witness:
  "reachable state1
   \<and> \<not> Map_has (vectors (fst state1)) ''n2''
   \<and> removeVector ''n2'' ''t2'' (fst state1) (snd state1) = (Inr False, fst state1, snd state1)
   \<and> Map_has (vectors (fst state1)) ''n1''
   \<and> (\<exists>s' d'. removeVector ''n1'' ''t2'' (fst state1) (snd state1) = (Inr True, s', d')
         \<and> getVector ''n1'' s' = None
         \<and> indexFile d' = Some (Doc \<lparr>snap_dimension = Some 2, snap_vectors = Some [],
                                      snap_metadata = Some [], savedAt = ''t2''\<rparr>))"
proof -
  have r: "reachable (fst state1, snd state1)"
    using reachable_state1 by simp
  have a: "\<not> Map_has (vectors (fst state1)) ''n2''" and p: "Map_has (vectors (fst state1)) ''n1''"
    by (simp_all add: state1_eval Map_has_def)
  have ok: "next_write_ok (snd state1)"
    by (simp add: state1_eval next_write_ok_def)
  have e: "Object_fromEntries ([] :: (string \<times> vec) list) = []"
    "Object_fromEntries ([] :: (string \<times> object) list) = []"
    by (simp_all add: Object_fromEntries_def Map_new_def own_property_order_def)
  from removeVector_effect [OF r, of "''n2''" "''t2''"] a
  have 1: "removeVector ''n2'' ''t2'' (fst state1) (snd state1) = (Inr False, fst state1, snd state1)"
    by simp
  from removeVector_effect [OF r, of "''n1''" "''t2''"] p ok
  obtain s' d' where 2: "removeVector ''n1'' ''t2'' (fst state1) (snd state1) = (Inr True, s', d')"
    "getVector ''n1'' s' = None"
    "indexFile d' = Some (Doc \<lparr>snap_dimension = Some (dimension s'),
                                       snap_vectors = Some (Object_fromEntries (vectors s')),
                                       snap_metadata = Some (Object_fromEntries (metadata s')),
                                       savedAt = ''t2''\<rparr>)"
    by auto
  from removeVector_fields [OF 2(1)]
  have "vectors s' = []" "metadata s' = []" "dimension s' = 2"
    by (simp_all add: state1_eval)
  with 2 e have "\<exists>s' d'. removeVector ''n1'' ''t2'' (fst state1) (snd state1) = (Inr True, s', d')
         \<and> getVector ''n1'' s' = None
         \<and> indexFile d' = Some (Doc \<lparr>snap_dimension = Some 2, snap_vectors = Some [],
                                      snap_metadata = Some [], savedAt = ''t2''\<rparr>)"
    by simp
  with reachable_state1 a p 1 show ?thesis by simp
qed

text \<open>
  C5. From a reachable state, a successful \<open>save\<close> followed by \<open>load\<close> on a new store
  (of the same configured dimension) succeeds whenever the file can be read, and the
  loaded store has the same IDs, the same vector for every ID and the same metadata for
  every ID. \<open>load\<close> with no index file succeeds and leaves the store as it is (empty,
  for a new store); a read failure and a file that is not JSON are thrown again.
\<close>

theorem save_load_roundtrip:
  "(reachable (s, d) \<and> save s now d = (Inr (), d') \<and> \<not> read_fault d' \<longrightarrow>
      (\<exists>s'. load (VectorStore_new (dimension s) k) d' = (Inr (), s')
          \<and> dimension s' = dimension s
          \<and> set (Map_keys (vectors s')) = set (Map_keys (vectors s))
          \<and> set (Map_keys (metadata s')) = set (Map_keys (metadata s))
          \<and> (\<forall>i. getVector i s' = getVector i s)
          \<and> (\<forall>i. map_of (metadata s') i = map_of (metadata s) i)))
   \<and> (indexFile d0 = None \<longrightarrow> load s0 d0 = (Inr (), s0))
   \<and> (indexFile d0 = None \<longrightarrow>
        (\<exists>s'. load (VectorStore_new dm k) d0 = (Inr (), s') \<and> vectors s' = [] \<and> metadata s' = []))
   \<and> (indexFile d0 \<noteq> None \<and> read_fault d0 \<longrightarrow> load s0 d0 = (Inl (FsError ''EIO''), s0))
   \<and> (indexFile d0 = Some NotJSON \<and> \<not> read_fault d0 \<longrightarrow> load s0 d0 = (Inl SyntaxError, s0))"
proof (intro conjI impI)
  assume a: "reachable (s, d) \<and> save s now d = (Inr (), d') \<and> \<not> read_fault d'"
  then have ok: "store_ok s"
    using reachable_store_ok by blast
  then have wf: "Map_wf (vectors s)" "Map_wf (metadata s)"
    by (simp_all add: store_ok_def)
  from a have fil: "indexFile d' =
      Some (Doc \<lparr>snap_dimension = Some (dimension s),
                 snap_vectors = Some (Object_fromEntries (vectors s)),
                 snap_metadata = Some (Object_fromEntries (metadata s)),
                 savedAt = now\<rparr>)"
    by (auto simp: save_cases split: if_splits)
  let ?s' = "rebuild_mappings
       ((VectorStore_new (dimension s) k)
          \<lparr>vectors := Map_new (Object_fromEntries (vectors s)),
           metadata := Map_new (Object_fromEntries (metadata s))\<rparr>)"
  from a fil have l: "load (VectorStore_new (dimension s) k) d' = (Inr (), ?s')"
    by (simp add: load_cases)
  have v: "vectors ?s' = Object_fromEntries (vectors s)"
    and m: "metadata ?s' = Object_fromEntries (metadata s)"
    and dm: "dimension ?s' = dimension s"
    using wf
    by (simp_all add: rebuild_mappings_fields Map_new_wf Object_fromEntries_wf
        VectorStore_new_def)
  from l v m dm wf
  show "\<exists>s'. load (VectorStore_new (dimension s) k) d' = (Inr (), s')
          \<and> dimension s' = dimension s
          \<and> set (Map_keys (vectors s')) = set (Map_keys (vectors s))
          \<and> set (Map_keys (metadata s')) = set (Map_keys (metadata s))
          \<and> (\<forall>i. getVector i s' = getVector i s)
          \<and> (\<forall>i. map_of (metadata s') i = map_of (metadata s) i)"
    by (intro exI [of _ ?s']) (simp add: getVector_def Object_fromEntries_wf)
next
  assume "indexFile d0 = None"
  then show "load s0 d0 = (Inr (), s0)"
    by (simp add: load_cases)
next
  assume "indexFile d0 = None"
  then show "\<exists>s'. load (VectorStore_new dm k) d0 = (Inr (), s') \<and> vectors s' = [] \<and> metadata s' = []"
    by (simp add: load_cases VectorStore_new_def)
next
  assume "indexFile d0 \<noteq> None \<and> read_fault d0"
  then show "load s0 d0 = (Inl (FsError ''EIO''), s0)"
    by (auto simp: load_cases)
next
  assume "indexFile d0 = Some NotJSON \<and> \<not> read_fault d0"
  then show "load s0 d0 = (Inl SyntaxError, s0)"
    by (simp add: load_cases)
qed

theorem save_load_roundtrip_witness:
  "reachable (fst state1, snd state1)
   \<and> (\<exists>d'. save (fst state1) ''t2'' (snd state1) = (Inr (), d') \<and> \<not> read_fault d'
        \<and> (\<exists>s'. load (VectorStore_new 2 7) d' = (Inr (), s')
              \<and> getVector ''n1'' s' = Some [3, 4]
              \<and> map_of (metadata s') ''n1'' = map_of (metadata (fst state1)) ''n1''))
   \<and> indexFile disk0 = None
   \<and> load (VectorStore_new 2 7) disk0 = (Inr (), VectorStore_new 2 7)
   \<and> indexFile (disk0\<lparr>indexFile := Some NotJSON, read_fault := True\<rparr>) \<noteq> None
   \<and> read_fault (disk0\<lparr>indexFile := Some NotJSON, read_fault := True\<rparr>)
   \<and> load (VectorStore_new 2 7) (disk0\<lparr>indexFile := Some NotJSON, read_fault := True\<rparr>)
       = (Inl (FsError ''EIO''), VectorStore_new 2 7)
   \<and> load (VectorStore_new 2 7) (disk0\<lparr>indexFile := Some NotJSON\<rparr>)
       = (Inl SyntaxError, VectorStore_new 2 7)"
proof -
  have r: "reachable (fst state1, snd state1)"
    using reachable_state1 by simp
  obtain d' where sv: "save (fst state1) ''t2'' (snd state1) = (Inr (), d')"
    and rf: "\<not> read_fault d'"
    by (simp add: save_cases state1_eval next_write_ok_def)
  have dim: "dimension (fst state1) = 2" and g: "getVector ''n1'' (fst state1) = Some [3, 4]"
    by (simp_all add: state1_eval getVector_def)
  note t = save_load_roundtrip [of "fst state1" "snd state1" "''t2''" d' 7 _ "VectorStore_new 2 7" 2]
  from t [of disk0] r sv rf dim g
  have 1: "\<exists>s'. load (VectorStore_new 2 7) d' = (Inr (), s')
              \<and> getVector ''n1'' s' = Some [3, 4]
              \<and> map_of (metadata s') ''n1'' = map_of (metadata (fst state1)) ''n1''"
    by auto
  have 2: "load (VectorStore_new 2 7) disk0 = (Inr (), VectorStore_new 2 7)"
    using t [of disk0] by (simp add: disk0_def)
  have 3: "load (VectorStore_new 2 7) (disk0\<lparr>indexFile := Some NotJSON, read_fault := True\<rparr>)
       = (Inl (FsError ''EIO''), VectorStore_new 2 7)"
    using t [of "disk0\<lparr>indexFile := Some NotJSON, read_fault := True\<rparr>"] by simp
  have 4: "load (VectorStore_new 2 7) (disk0\<lparr>indexFile := Some NotJSON\<rparr>)
       = (Inl SyntaxError, VectorStore_new 2 7)"
    using t [of "disk0\<lparr>indexFile := Some NotJSON\<rparr>"] by (simp add: disk0_def)
  from r sv rf 1 2 3 4 show ?thesis
    by (auto simp: disk0_def)
qed

text \<open>
  C4 (amended). \<open>addVector\<close> fails with the validation error, leaving the store and the
  file system as they were, exactly when the ID is missing or empty or the vector is
  missing. In every other case, an empty vector included, the resized vector (of the
  configured length) is stored under the ID, and the call fails only when writing the
  snapshot fails.
\<close>

theorem addVector_validation:
  "(id' = None \<or> id' = Some [] \<or> vector' = None \<longrightarrow>
      addVector id' vector' meta now s d = (Inl (Error ''ID and vector are required''), s, d))
   \<and> (i \<noteq> [] \<longrightarrow>
        (\<exists>r s' d'. addVector (Some i) (Some v) meta now s d = (r, s', d')
           \<and> getVector i s' = Some (processedVector (dimension s) v)
           \<and> length (processedVector (dimension s) v) = dimension s
           \<and> dimension s' = dimension s
           \<and> r = (if next_write_ok d then Inr () else Inl (FsError ''EIO''))))"
proof (intro conjI impI)
  assume "id' = None \<or> id' = Some [] \<or> vector' = None"
  then show "addVector id' vector' meta now s d = (Inl (Error ''ID and vector are required''), s, d)"
    by (rule addVector_invalid)
next
  assume i: "i \<noteq> []"
  obtain r s' d' where a: "addVector (Some i) (Some v) meta now s d = (r, s', d')"
    by (cases "addVector (Some i) (Some v) meta now s d") auto
  note f = addVector_valid [OF i a]
  from f(1) have "getVector i s' = Some (processedVector (dimension s) v)"
    by (simp add: getVector_def map_of_Map_set)
  moreover from save_result [OF f(5)]
  have "r = (if next_write_ok d then Inr () else Inl (FsError ''EIO''))" .
  ultimately show "\<exists>r s' d'. addVector (Some i) (Some v) meta now s d = (r, s', d')
           \<and> getVector i s' = Some (processedVector (dimension s) v)
           \<and> length (processedVector (dimension s) v) = dimension s
           \<and> dimension s' = dimension s
           \<and> r = (if next_write_ok d then Inr () else Inl (FsError ''EIO''))"
    using a f(3) by (simp add: length_processedVector)
qed

theorem addVector_validation_witness:
  "addVector (Some []) (Some [1]) Map.empty ''t1'' (VectorStore_new 2 5) disk0
     = (Inl (Error ''ID and vector are required''), VectorStore_new 2 5, disk0)
   \<and> addVector (Some ''n1'') None Map.empty ''t1'' (VectorStore_new 2 5) disk0
     = (Inl (Error ''ID and vector are required''), VectorStore_new 2 5, disk0)
   \<and> (\<exists>s' d'. addVector (Some ''n1'') (Some [3, 4, 5]) Map.empty ''t1'' (VectorStore_new 2 5) disk0
                 = (Inr (), s', d')
         \<and> getVector ''n1'' s' = Some [3, 4])
   \<and> (\<exists>s' d'. addVector (Some ''n1'') (Some [3]) Map.empty ''t1'' (VectorStore_new 2 5)
                   (disk0\<lparr>write_faults := [True]\<rparr>)
                 = (Inl (FsError ''EIO''), s', d')
         \<and> getVector ''n1'' s' = Some [3, 0])"
proof -
  have p: "processedVector (dimension (VectorStore_new 2 5)) [3, 4, 5] = [3, 4]"
    "processedVector (dimension (VectorStore_new 2 5)) [3] = [3, 0]"
    by (simp_all add: processedVector_def VectorStore_new_def numeral_2_eq_2)
  have w: "next_write_ok disk0" "\<not> next_write_ok (disk0\<lparr>write_faults := [True]\<rparr>)"
    by (simp_all add: next_write_ok_def disk0_def)
  have 1: "addVector (Some []) (Some [1]) Map.empty ''t1'' (VectorStore_new 2 5) disk0
     = (Inl (Error ''ID and vector are required''), VectorStore_new 2 5, disk0)"
    using addVector_validation [of "Some []" "Some [1]"] by simp
  have 2: "addVector (Some ''n1'') None Map.empty ''t1'' (VectorStore_new 2 5) disk0
     = (Inl (Error ''ID and vector are required''), VectorStore_new 2 5, disk0)"
    using addVector_validation [of "Some ''n1''" None] by simp
  have 3: "\<exists>s' d'. addVector (Some ''n1'') (Some [3, 4, 5]) Map.empty ''t1'' (VectorStore_new 2 5) disk0
                 = (Inr (), s', d') \<and> getVector ''n1'' s' = Some [3, 4]"
    using addVector_validation [of None None Map.empty "''t1''" "VectorStore_new 2 5" disk0
        "''n1''" "[3, 4, 5]"] p w
    by auto
  have 4: "\<exists>s' d'. addVector (Some ''n1'') (Some [3]) Map.empty ''t1'' (VectorStore_new 2 5)
                   (disk0\<lparr>write_faults := [True]\<rparr>)
                 = (Inl (FsError ''EIO''), s', d') \<and> getVector ''n1'' s' = Some [3, 0]"
    using addVector_validation [of None None Map.empty "''t1''" "VectorStore_new 2 5"
        "disk0\<lparr>write_faults := [True]\<rparr>" "''n1''" "[3]"] p w
    by auto
  from 1 2 3 4 show ?thesis by blast
qed

text \<open>
  C4 as stated fails for an empty vector: \<open>addVector\<close> with the ID \<open>n1\<close> and the vector
  \<open>[]\<close> succeeds on a store of dimension 2 and stores \<open>[0, 0]\<close>.
\<close>

theorem addVector_empty_vector_counterexample:
  "fst (addVector (Some ''n1'') (Some []) Map.empty ''t1'' (VectorStore_new 2 5) disk0) = Inr ()
   \<and> getVector ''n1''
        (fst (snd (addVector (Some ''n1'') (Some []) Map.empty ''t1'' (VectorStore_new 2 5) disk0)))
       = Some [0, 0]"
  by (simp add: addVector_def addVector_sync_def VectorStore_new_def disk0_def processedVector_def Map_has_def
      save_def fs_writeFile_def Let_def getVector_def numeral_2_eq_2)

text \<open>
  C3 (amended). For an ID that already has a record in a reachable state:
  \<open>updateVector\<close> replaces the vector and merges the supplied metadata into the stored
  metadata (a stored key that the new metadata does not name keeps its value, apart
  from \<open>updatedAt\<close>, which is set); \<open>addVector\<close> replaces the vector and replaces the
  metadata by the supplied metadata with \<open>addedAt\<close> set. Both leave the list of IDs as
  it was, so there is still one record per ID.
\<close>

theorem existing_id_overwrite:
  assumes "reachable (s, d)" and "Map_has (vectors s) i"
  shows "(\<exists>r s' d' old.
            updateVector i v meta now s d = (r, s', d')
            \<and> getVector i s' = Some (processedVector (dimension s) v)
            \<and> map_of (metadata s) i = Some old
            \<and> map_of (metadata s') i = Some ((old ++ meta)(''updatedAt'' \<mapsto> JStr now))
            \<and> (\<forall>k. k \<notin> dom meta \<and> k \<noteq> ''updatedAt'' \<longrightarrow>
                   ((old ++ meta)(''updatedAt'' \<mapsto> JStr now)) k = old k)
            \<and> Map_keys (vectors s') = Map_keys (vectors s)
            \<and> Map_keys (metadata s') = Map_keys (metadata s)
            \<and> distinct (Map_keys (vectors s')))
       \<and> (i \<noteq> [] \<longrightarrow>
            (\<exists>r s' d'.
               addVector (Some i) (Some v) meta now s d = (r, s', d')
               \<and> getVector i s' = Some (processedVector (dimension s) v)
               \<and> map_of (metadata s') i = Some (meta(''addedAt'' \<mapsto> JStr now))
               \<and> Map_keys (vectors s') = Map_keys (vectors s)
               \<and> Map_keys (metadata s') = Map_keys (metadata s)
               \<and> distinct (Map_keys (vectors s'))))"
proof -
  from reachable_store_ok [OF assms(1)]
  have wf: "Map_wf (vectors s)" and agree: "keys_agree s"
    by (simp_all add: store_ok_def)
  from assms(2) have kv: "i \<in> set (Map_keys (vectors s))"
    by (simp add: Map_has_keys)
  with agree have km: "i \<in> set (Map_keys (metadata s))"
    by (simp add: keys_agree_def)
  then obtain old where old: "map_of (metadata s) i = Some old"
    by (metis Map_has_def Map_has_keys not_Some_eq)
  have upd: "\<exists>r s' d' old.
            updateVector i v meta now s d = (r, s', d')
            \<and> getVector i s' = Some (processedVector (dimension s) v)
            \<and> map_of (metadata s) i = Some old
            \<and> map_of (metadata s') i = Some ((old ++ meta)(''updatedAt'' \<mapsto> JStr now))
            \<and> (\<forall>k. k \<notin> dom meta \<and> k \<noteq> ''updatedAt'' \<longrightarrow>
                   ((old ++ meta)(''updatedAt'' \<mapsto> JStr now)) k = old k)
            \<and> Map_keys (vectors s') = Map_keys (vectors s)
            \<and> Map_keys (metadata s') = Map_keys (metadata s)
            \<and> distinct (Map_keys (vectors s'))"
  proof -
    obtain r s' d' where u: "updateVector i v meta now s d = (r, s', d')"
      by (cases "updateVector i v meta now s d") auto
    note f = updateVector_present [OF assms(2) u]
    have merged: "\<forall>k. k \<notin> dom meta \<and> k \<noteq> ''updatedAt'' \<longrightarrow>
                   ((old ++ meta)(''updatedAt'' \<mapsto> JStr now)) k = old k"
      by (auto simp: map_add_def split: option.splits)
    from f(1) f(2) old kv km wf merged u show ?thesis
      by (intro exI [of _ r] exI [of _ s'] exI [of _ d'] exI [of _ old])
        (simp add: getVector_def map_of_Map_set keys_Map_set Map_wf_def)
  qed
  have add: "i \<noteq> [] \<longrightarrow>
            (\<exists>r s' d'.
               addVector (Some i) (Some v) meta now s d = (r, s', d')
               \<and> getVector i s' = Some (processedVector (dimension s) v)
               \<and> map_of (metadata s') i = Some (meta(''addedAt'' \<mapsto> JStr now))
               \<and> Map_keys (vectors s') = Map_keys (vectors s)
               \<and> Map_keys (metadata s') = Map_keys (metadata s)
               \<and> distinct (Map_keys (vectors s')))"
  proof
    assume i: "i \<noteq> []"
    obtain r s' d' where a: "addVector (Some i) (Some v) meta now s d = (r, s', d')"
      by (cases "addVector (Some i) (Some v) meta now s d") auto
    note f = addVector_valid [OF i a]
    from f(1) f(2) kv km wf a
    show "\<exists>r s' d'.
               addVector (Some i) (Some v) meta now s d = (r, s', d')
               \<and> getVector i s' = Some (processedVector (dimension s) v)
               \<and> map_of (metadata s') i = Some (meta(''addedAt'' \<mapsto> JStr now))
               \<and> Map_keys (vectors s') = Map_keys (vectors s)
               \<and> Map_keys (metadata s') = Map_keys (metadata s)
               \<and> distinct (Map_keys (vectors s'))"
      by (intro exI [of _ r] exI [of _ s'] exI [of _ d'])
        (simp add: getVector_def map_of_Map_set keys_Map_set Map_wf_def)
  qed
  from upd add show ?thesis by (rule conjI)
qed

theorem existing_id_overwrite_witness:
  "reachable (fst state1, snd state1) \<and> Map_has (vectors (fst state1)) ''n1''
   \<and> (\<exists>r s' d' m'.
         updateVector ''n1'' [1] [''pinned'' \<mapsto> JBool True] ''t2'' (fst state1) (snd state1)
           = (r, s', d')
         \<and> getVector ''n1'' s' = Some [1, 0]
         \<and> map_of (metadata s') ''n1'' = Some m'
         \<and> m' ''category'' = Some (JStr ''work'') \<and> m' ''pinned'' = Some (JBool True)
         \<and> m' ''updatedAt'' = Some (JStr ''t2'')
         \<and> Map_keys (vectors s') = [''n1''])
   \<and> (\<exists>r s' d'.
         addVector (Some ''n1'') (Some [1]) [''pinned'' \<mapsto> JBool True] ''t2'' (fst state1) (snd state1)
           = (r, s', d')
         \<and> getVector ''n1'' s' = Some [1, 0]
         \<and> map_of (metadata s') ''n1'' = Some [''pinned'' \<mapsto> JBool True, ''addedAt'' \<mapsto> JStr ''t2'']
         \<and> Map_keys (vectors s') = [''n1''])"
proof -
  have r: "reachable (fst state1, snd state1)"
    using reachable_state1 by simp
  have p: "Map_has (vectors (fst state1)) ''n1''"
    by (simp add: state1_eval Map_has_def)
  have pv: "processedVector (dimension (fst state1)) [1] = [1, 0]"
    by (simp add: state1_eval processedVector_def numeral_2_eq_2)
  have old: "map_of (metadata (fst state1)) ''n1''
               = Some [''category'' \<mapsto> JStr ''work'', ''addedAt'' \<mapsto> JStr ''t1'']"
    and ks: "Map_keys (vectors (fst state1)) = [''n1'']"
    by (simp_all add: state1_eval Map_keys_def)
  note t = existing_id_overwrite [OF r p, of "[1]" "[''pinned'' \<mapsto> JBool True]" "''t2''"]
  from t obtain r1 s1 d1 old1 where u:
    "updateVector ''n1'' [1] [''pinned'' \<mapsto> JBool True] ''t2'' (fst state1) (snd state1) = (r1, s1, d1)"
    "getVector ''n1'' s1 = Some (processedVector (dimension (fst state1)) [1])"
    "map_of (metadata (fst state1)) ''n1'' = Some old1"
    "map_of (metadata s1) ''n1''
       = Some ((old1 ++ [''pinned'' \<mapsto> JBool True])(''updatedAt'' \<mapsto> JStr ''t2''))"
    "Map_keys (vectors s1) = Map_keys (vectors (fst state1))"
    by blast
  from u(3) old have old1: "old1 = [''category'' \<mapsto> JStr ''work'', ''addedAt'' \<mapsto> JStr ''t1'']"
    by simp
  have 1: "\<exists>r s' d' m'.
         updateVector ''n1'' [1] [''pinned'' \<mapsto> JBool True] ''t2'' (fst state1) (snd state1)
           = (r, s', d')
         \<and> getVector ''n1'' s' = Some [1, 0]
         \<and> map_of (metadata s') ''n1'' = Some m'
         \<and> m' ''category'' = Some (JStr ''work'') \<and> m' ''pinned'' = Some (JBool True)
         \<and> m' ''updatedAt'' = Some (JStr ''t2'')
         \<and> Map_keys (vectors s') = [''n1'']"
    using u(1) u(2) u(4) u(5) pv ks unfolding old1
    by (intro exI [of _ r1] exI [of _ s1] exI [of _ d1]
        exI [of _ "([''category'' \<mapsto> JStr ''work'', ''addedAt'' \<mapsto> JStr ''t1'']
                     ++ [''pinned'' \<mapsto> JBool True])(''updatedAt'' \<mapsto> JStr ''t2'')"])
      (simp add: map_add_def)
  from t have "\<exists>r s' d'.
         addVector (Some ''n1'') (Some [1]) [''pinned'' \<mapsto> JBool True] ''t2'' (fst state1) (snd state1)
           = (r, s', d')
         \<and> getVector ''n1'' s' = Some (processedVector (dimension (fst state1)) [1])
         \<and> map_of (metadata s') ''n1'' = Some [''pinned'' \<mapsto> JBool True, ''addedAt'' \<mapsto> JStr ''t2'']
         \<and> Map_keys (vectors s') = Map_keys (vectors (fst state1))"
    by auto
  with pv ks have 2: "\<exists>r s' d'.
         addVector (Some ''n1'') (Some [1]) [''pinned'' \<mapsto> JBool True] ''t2'' (fst state1) (snd state1)
           = (r, s', d')
         \<and> getVector ''n1'' s' = Some [1, 0]
         \<and> map_of (metadata s') ''n1'' = Some [''pinned'' \<mapsto> JBool True, ''addedAt'' \<mapsto> JStr ''t2'']
         \<and> Map_keys (vectors s') = [''n1'']"
    by simp
  from r p 1 2 show ?thesis by blast
qed

text \<open>
  C3 as stated fails for \<open>addVector\<close>: the record \<open>n1\<close> has the category \<open>work\<close>; after
  \<open>addVector\<close> with the same ID and metadata that does not name \<open>category\<close>, the stored
  metadata has no \<open>category\<close>.
\<close>

theorem addVector_replaces_metadata_counterexample:
  "map_option (\<lambda>m. m ''category'') (map_of (metadata (fst state1)) ''n1'')
     = Some (Some (JStr ''work''))
   \<and> map_option (\<lambda>m. m ''category'')
         (map_of (metadata (fst (snd (addVector (Some ''n1'') (Some [1, 2])
                    [''pinned'' \<mapsto> JBool True] ''t2'' (fst state1) (snd state1))))) ''n1'')
       = Some None"
  by (simp add: state1_eval addVector_def addVector_sync_def processedVector_def Map_has_def Let_def
      split: prod.splits)

section \<open>Facts about search\<close>

lemma sorted_wrt_take': "sorted_wrt R xs \<Longrightarrow> sorted_wrt R (take n xs)"
proof -
  assume "sorted_wrt R xs"
  then have "sorted_wrt R (take n xs @ drop n xs)" by simp
  then show ?thesis unfolding sorted_wrt_append by simp
qed

lemma set_slice0: "set (slice0 xs k) \<subseteq> set xs"
  by (auto simp: slice0_def dest: in_set_takeD)

lemma length_slice0: "0 \<le> k \<Longrightarrow> length (slice0 xs k) \<le> nat k"
  by (simp add: slice0_def)

lemma sorted_wrt_slice0: "sorted_wrt R xs \<Longrightarrow> sorted_wrt R (slice0 xs k)"
  by (simp add: slice0_def sorted_wrt_take')

text \<open>
  Inserting an element that precedes (in \<open>R\<close>) every element of a list sorted by key
  with ties in \<open>R\<close> order keeps that order: \<open>insort_key\<close> puts it before the first
  element whose key is not smaller.
\<close>

lemma insort_key_stable:
  fixes f :: "'a \<Rightarrow> 'b::linorder"
  assumes "sorted_wrt (\<lambda>a b. f a < f b \<or> (f a = f b \<and> R a b)) zs"
    and "\<forall>z\<in>set zs. R y z"
  shows "sorted_wrt (\<lambda>a b. f a < f b \<or> (f a = f b \<and> R a b)) (insort_key f y zs)"
  using assms
proof (induction zs)
  case Nil
  then show ?case by simp
next
  case (Cons z zs)
  show ?case
  proof (cases "f y \<le> f z")
    case True
    have "\<forall>w\<in>set (z # zs). f y < f w \<or> (f y = f w \<and> R y w)"
    proof
      fix w assume w: "w \<in> set (z # zs)"
      have "f z \<le> f w"
        using w Cons.prems(1) by auto
      with True have "f y \<le> f w" by simp
      with w Cons.prems(2) show "f y < f w \<or> (f y = f w \<and> R y w)"
        by (auto simp: le_less)
    qed
    with True Cons.prems(1) show ?thesis by simp
  next
    case False
    then have lt: "f z < f y" by simp
    have tail: "sorted_wrt (\<lambda>a b. f a < f b \<or> (f a = f b \<and> R a b)) (insort_key f y zs)"
      using Cons.IH Cons.prems by simp
    have "\<forall>w\<in>set (insort_key f y zs). f z < f w \<or> (f z = f w \<and> R z w)"
      using lt Cons.prems(1) by (auto simp: set_insort_key)
    with False tail show ?thesis by simp
  qed
qed

lemma sort_key_stable_order:
  fixes f :: "'a \<Rightarrow> 'b::linorder"
  assumes "sorted_wrt R ys"
  shows "sorted_wrt (\<lambda>a b. f a < f b \<or> (f a = f b \<and> R a b)) (sort_key f ys)"
  using assms
proof (induction ys)
  case Nil
  then show ?case by simp
next
  case (Cons y ys)
  then have "sorted_wrt (\<lambda>a b. f a < f b \<or> (f a = f b \<and> R a b)) (sort_key f ys)"
    and "\<forall>z\<in>set (sort_key f ys). R y z"
    by simp_all
  then show ?case
    by (simp add: insort_key_stable)
qed

lemma search_scan_hit:
  assumes "h \<in> set (search_scan s flt nq es)"
  shows "(\<exists>v. (id_of h, v) \<in> set es \<and> score h = dotProduct nq (normalizeVector v))
       \<and> metadata_of h = (case map_of (metadata s) (id_of h) of None \<Rightarrow> Map.empty | Some m \<Rightarrow> m)
       \<and> (\<forall>ex. excludeIds flt = Some ex \<longrightarrow> id_of h \<notin> set ex)
       \<and> (\<forall>c. category flt = Some c \<and> truthy c \<longrightarrow>
              (\<exists>m. map_of (metadata s) (id_of h) = Some m \<and> m ''category'' = Some c))"
  using assms
proof (induction es)
  case Nil
  then show ?case by simp
next
  case (Cons e es)
  obtain i v where e: "e = (i, v)" by (cases e)
  from Cons.prems consider (tail) "h \<in> set (search_scan s flt nq es)"
    | (head) "h = \<lparr>id_of = i, score = dotProduct nq (normalizeVector v),
                   metadata_of = (case map_of (metadata s) i of None \<Rightarrow> Map.empty | Some m \<Rightarrow> m)\<rparr>"
        "\<not> (case excludeIds flt of None \<Rightarrow> False | Some ex \<Rightarrow> i \<in> set ex)"
        "\<not> ((case category flt of None \<Rightarrow> False | Some c \<Rightarrow> truthy c)
            \<and> (case map_of (metadata s) i of None \<Rightarrow> None | Some m \<Rightarrow> m ''category'') \<noteq> category flt)"
    unfolding e by (auto simp: Let_def split: if_splits)
  then show ?case
  proof cases
    case tail
    from Cons.IH [OF tail] show ?thesis by auto
  next
    case head
    from head(2) have ex: "\<forall>ex. excludeIds flt = Some ex \<longrightarrow> id_of h \<notin> set ex"
      by (auto simp: head(1))
    from head(3) have cat: "\<forall>c. category flt = Some c \<and> truthy c \<longrightarrow>
              (\<exists>m. map_of (metadata s) (id_of h) = Some m \<and> m ''category'' = Some c)"
      by (auto simp: head(1) split: option.splits)
    from ex cat show ?thesis
      by (simp add: head(1) e) blast
  qed
qed

lemma index_of_Cons_other: "x \<noteq> y \<Longrightarrow> index_of (y # ys) x = Suc (index_of ys x)"
  by simp

lemma search_scan_order:
  assumes "distinct (map fst es)"
  shows "sorted_wrt (\<lambda>a b. index_of (map fst es) (id_of a) < index_of (map fst es) (id_of b))
           (search_scan s flt nq es)"
  using assms
proof (induction es)
  case Nil
  then show ?case by simp
next
  case (Cons e es)
  obtain i v where e: "e = (i, v)" by (cases e)
  from Cons.prems have d: "distinct (map fst es)" and fresh: "i \<notin> fst ` set es"
    by (simp_all add: e)
  have ids: "\<forall>h\<in>set (search_scan s flt nq es). id_of h \<noteq> i"
  proof
    fix h assume "h \<in> set (search_scan s flt nq es)"
    from search_scan_hit [OF this] obtain v' where "(id_of h, v') \<in> set es" by blast
    with fresh show "id_of h \<noteq> i" by force
  qed
  have "sorted_wrt (\<lambda>a b. index_of (map fst es) (id_of a) < index_of (map fst es) (id_of b))
           (search_scan s flt nq es)"
    by (rule Cons.IH [OF d])
  then have tail: "sorted_wrt (\<lambda>a b. index_of (i # map fst es) (id_of a)
                                     < index_of (i # map fst es) (id_of b))
           (search_scan s flt nq es)"
    by (rule sorted_wrt_mono_rel [rotated]) (use ids in simp)
  show ?case
    unfolding e using tail ids by (simp add: Let_def)
qed

lemma search_valid:
  "q \<noteq> [] \<Longrightarrow>
     search (Some q) topK' flt s =
       Inr (slice0 (sort_key (\<lambda>r. - score r) (search_scan s flt (normalizeVector q) (vectors s)))
              (case topK' of None \<Rightarrow> topK s | Some n \<Rightarrow> if n = 0 then topK s else n))"
  by (simp add: search_def Let_def)

lemma search_hits:
  assumes "search qv topK' flt s = Inr hs" and "h \<in> set hs"
  shows "\<exists>q. qv = Some q \<and> q \<noteq> [] \<and> h \<in> set (search_scan s flt (normalizeVector q) (vectors s))"
proof -
  from assms(1) obtain q where q: "qv = Some q" "q \<noteq> []"
    by (auto simp: search_def Let_def split: option.splits if_splits)
  from assms q have "h \<in> set (slice0 (sort_key (\<lambda>r. - score r)
                       (search_scan s flt (normalizeVector q) (vectors s)))
              (case topK' of None \<Rightarrow> topK s | Some n \<Rightarrow> if n = 0 then topK s else n))"
    by (simp add: search_valid)
  then have "h \<in> set (search_scan s flt (normalizeVector q) (vectors s))"
    using set_slice0 by fastforce
  with q show ?thesis by simp
qed

text \<open>The loop of \<open>search\<close> keeps exactly the admitted records, in the order of the map.\<close>

lemma search_scan_filter:
  "search_scan s flt nq es =
     map (\<lambda>e. \<lparr>id_of = fst e, score = dotProduct nq (normalizeVector (snd e)),
                 metadata_of = (case map_of (metadata s) (fst e) of None \<Rightarrow> Map.empty | Some m \<Rightarrow> m)\<rparr>)
         (filter (\<lambda>e. admits flt s (fst e)) es)"
proof (induction es)
  case Nil
  then show ?case by simp
next
  case (Cons e es)
  obtain i v where e: "e = (i, v)" by (cases e)
  show ?case
    unfolding e using Cons.IH
    by (auto simp: admits_def Let_def split: option.splits)
qed

lemma distinct_map_sort_key: "distinct (map g xs) \<Longrightarrow> distinct (map g (sort_key f xs))"
  by (simp add: distinct_map)

lemma sorted_wrt_take_rest:
  assumes "sorted_wrt R xs" and "x \<in> set (take n xs)" and "y \<in> set xs" and "y \<notin> set (take n xs)"
  shows "R x y"
proof -
  from assms(3) assms(4) have "y \<in> set (drop n xs)"
    by (metis Un_iff append_take_drop_id set_append)
  moreover from assms(1) have "sorted_wrt R (take n xs @ drop n xs)"
    by simp
  ultimately show ?thesis
    using assms(2) unfolding sorted_wrt_append by blast
qed

section \<open>The example store of the search claim\<close>

lemma store6_maps:
  "vectors store6 =
     [(''n1'', [3, 4]), (''n2'', [4, 3]), (''n3'', [3, 4]), (''n4'', [3, 4]), (''n5'', [3, 4]),
      (''n6'', [1, 0])]"
  "metadata store6 =
     [(''n1'', [''category'' \<mapsto> JStr ''work'', ''addedAt'' \<mapsto> JStr ''t1'']),
      (''n2'', [''category'' \<mapsto> JStr ''work'', ''addedAt'' \<mapsto> JStr ''t1'']),
      (''n3'', [''category'' \<mapsto> JStr ''work'', ''addedAt'' \<mapsto> JStr ''t1'']),
      (''n4'', [''category'' \<mapsto> JStr ''home'', ''addedAt'' \<mapsto> JStr ''t1'']),
      (''n5'', [''category'' \<mapsto> JStr ''work'', ''addedAt'' \<mapsto> JStr ''t1'']),
      (''n6'', [''category'' \<mapsto> JStr ''work'', ''addedAt'' \<mapsto> JStr ''t1''])]"
  "topK store6 = 5"
  by (simp_all add: store6_def addVector_sync_def VectorStore_new_def processedVector_def
      Map_has_def Let_def)

lemma normalized_examples:
  "normalizeVector [3, 4] = [3 / 5, 4 / 5]" "normalizeVector [4, 3] = [4 / 5, 3 / 5]"
  "normalizeVector [1, 0] = [1, 0]"
  by (simp_all add: normalizeVector_def magnitude_def sqrt_25)

lemma dotProduct_pair: "dotProduct [a, b] [c, d] = a * c + b * d"
  by (simp add: dotProduct_sum numeral_2_eq_2)

text \<open>
  The search over the six records with \<open>k = 3\<close>, \<open>n5\<close> excluded and the category
  \<open>work\<close>, evaluated from the definitions: \<open>n4\<close> and \<open>n5\<close> are skipped although they
  score 1, \<open>n3\<close> passes \<open>n2\<close>, \<open>n1\<close> stays before \<open>n3\<close>, and \<open>n6\<close> is cut.
\<close>

lemma search_store6:
  "search (Some [3, 4]) (Some 3) work_filter store6 =
     Inr [\<lparr>id_of = ''n1'', score = 1,
            metadata_of = [''category'' \<mapsto> JStr ''work'', ''addedAt'' \<mapsto> JStr ''t1'']\<rparr>,
          \<lparr>id_of = ''n3'', score = 1,
            metadata_of = [''category'' \<mapsto> JStr ''work'', ''addedAt'' \<mapsto> JStr ''t1'']\<rparr>,
          \<lparr>id_of = ''n2'', score = 24 / 25,
            metadata_of = [''category'' \<mapsto> JStr ''work'', ''addedAt'' \<mapsto> JStr ''t1'']\<rparr>]"
  by (simp add: search_def store6_maps work_filter_def normalized_examples dotProduct_pair
      slice0_def Let_def)

section \<open>Claims about search and the agreement of the two maps\<close>

text \<open>
  C1 (amended). For every store (a \<open>Map\<close> holds each ID once), every non-empty query
  \<open>q\<close> and every \<open>k\<close> of at least 1, \<open>search\<close> succeeds and returns at most \<open>k\<close> hits,
  sorted by descending score with equal scores in the insertion order of the store;
  no hit has an ID of \<open>filter.excludeIds\<close>; when \<open>filter.category\<close> is truthy every
  hit's stored category equals it; every hit's score is the dot product of the
  normalized query with the normalized stored vector of its ID. The hits are the best
  of the admitted records: there are \<open>k\<close> of them, or as many as there are admitted
  records when these are fewer, each ID occurs once, and an admitted record that is not
  returned scores no higher than any hit. A missing or zero \<open>topK\<close> stands for the
  configured default. A missing or empty query fails with the validation error.
\<close>

theorem search_results:
  "(Map_wf (vectors s) \<and> q \<noteq> [] \<and> 0 < k \<longrightarrow>
      (\<exists>hs. search (Some q) (Some k) flt s = Inr hs
         \<and> length hs \<le> nat k
         \<and> sorted_wrt (\<lambda>a b. score a \<ge> score b) hs
         \<and> sorted_wrt (\<lambda>a b. score a > score b
               \<or> (score a = score b
                   \<and> index_of (Map_keys (vectors s)) (id_of a)
                       < index_of (Map_keys (vectors s)) (id_of b))) hs
         \<and> (\<forall>h\<in>set hs.
               (\<forall>ex. excludeIds flt = Some ex \<longrightarrow> id_of h \<notin> set ex)
               \<and> (\<forall>c. category flt = Some c \<and> truthy c \<longrightarrow>
                      (\<exists>m. map_of (metadata s) (id_of h) = Some m \<and> m ''category'' = Some c))
               \<and> (\<exists>v. map_of (vectors s) (id_of h) = Some v
                      \<and> score h = dotProduct (normalizeVector q) (normalizeVector v)))
         \<and> length hs = min (nat k) (length (filter (\<lambda>e. admits flt s (fst e)) (vectors s)))
         \<and> distinct (map id_of hs)
         \<and> (\<forall>e\<in>set (vectors s).
               admits flt s (fst e) \<and> fst e \<notin> set (map id_of hs) \<longrightarrow>
               (\<forall>h\<in>set hs. dotProduct (normalizeVector q) (normalizeVector (snd e)) \<le> score h))))
   \<and> search (Some q) None flt s = search (Some q) (Some (topK s)) flt s
   \<and> search (Some q) (Some 0) flt s = search (Some q) (Some (topK s)) flt s
   \<and> search None topK' flt s = Inl (Error ''Query vector is required'')
   \<and> search (Some []) topK' flt s = Inl (Error ''Query vector is required'')"
proof (intro conjI impI)
  assume a: "Map_wf (vectors s) \<and> q \<noteq> [] \<and> 0 < k"
  let ?nq = "normalizeVector q"
  let ?scan = "search_scan s flt ?nq (vectors s)"
  let ?sorted = "sort_key (\<lambda>r. - score r) ?scan"
  let ?hs = "slice0 ?sorted k"
  let ?pos = "\<lambda>h. index_of (Map_keys (vectors s)) (id_of h)"
  let ?mk = "\<lambda>e. \<lparr>id_of = fst e, score = dotProduct ?nq (normalizeVector (snd e)),
                 metadata_of = (case map_of (metadata s) (fst e) of None \<Rightarrow> Map.empty | Some m \<Rightarrow> m)\<rparr>"
  let ?adm = "filter (\<lambda>e. admits flt s (fst e)) (vectors s)"
  from a have d: "distinct (map fst (vectors s))"
    by (simp add: Map_wf_def Map_keys_def)
  from a have res: "search (Some q) (Some k) flt s = Inr ?hs"
    by (simp add: search_valid)
  from a have take: "?hs = take (nat k) ?sorted"
    by (simp add: slice0_def)
  from a have len: "length ?hs \<le> nat k"
    by (simp add: length_slice0)
  have "sorted_wrt (\<lambda>a b. ?pos a < ?pos b) ?scan"
    using search_scan_order [OF d] by (simp add: Map_keys_def)
  then have "sorted_wrt (\<lambda>a b. - score a < - score b \<or> (- score a = - score b \<and> ?pos a < ?pos b))
               ?sorted"
    by (rule sort_key_stable_order)
  then have lex: "sorted_wrt (\<lambda>a b. score a > score b \<or> (score a = score b \<and> ?pos a < ?pos b)) ?hs"
    by (intro sorted_wrt_slice0) simp
  have "sorted (map (\<lambda>r. - score r) ?sorted)"
    by (rule sorted_sort_key)
  then have desc_all: "sorted_wrt (\<lambda>a b. score a \<ge> score b) ?sorted"
    by (simp add: sorted_map)
  then have desc: "sorted_wrt (\<lambda>a b. score a \<ge> score b) ?hs"
    by (rule sorted_wrt_slice0)
  have hits: "\<forall>h\<in>set ?hs.
               (\<forall>ex. excludeIds flt = Some ex \<longrightarrow> id_of h \<notin> set ex)
               \<and> (\<forall>c. category flt = Some c \<and> truthy c \<longrightarrow>
                      (\<exists>m. map_of (metadata s) (id_of h) = Some m \<and> m ''category'' = Some c))
               \<and> (\<exists>v. map_of (vectors s) (id_of h) = Some v
                      \<and> score h = dotProduct (normalizeVector q) (normalizeVector v))"
  proof
    fix h assume "h \<in> set ?hs"
    then have h: "h \<in> set ?scan"
      using set_slice0 by fastforce
    note p = search_scan_hit [OF h]
    from p obtain v where v: "(id_of h, v) \<in> set (vectors s)"
      "score h = dotProduct (normalizeVector q) (normalizeVector v)"
      by blast
    from v(1) d have "map_of (vectors s) (id_of h) = Some v"
      by simp
    with v(2) p show "(\<forall>ex. excludeIds flt = Some ex \<longrightarrow> id_of h \<notin> set ex)
               \<and> (\<forall>c. category flt = Some c \<and> truthy c \<longrightarrow>
                      (\<exists>m. map_of (metadata s) (id_of h) = Some m \<and> m ''category'' = Some c))
               \<and> (\<exists>v. map_of (vectors s) (id_of h) = Some v
                      \<and> score h = dotProduct (normalizeVector q) (normalizeVector v))"
      by blast
  qed
  have scan: "?scan = map ?mk ?adm"
    by (rule search_scan_filter)
  have count: "length ?hs = min (nat k) (length ?adm)"
    unfolding take by (simp add: scan min.commute)
  have "map id_of ?scan = map fst ?adm"
    unfolding scan by (simp add: comp_def)
  with d have "distinct (map id_of ?scan)"
    by (simp add: distinct_map_filter)
  then have "distinct (map id_of ?sorted)"
    by (rule distinct_map_sort_key)
  then have dist: "distinct (map id_of ?hs)"
    unfolding take by (simp add: take_map [symmetric] del: take_map)
  have best: "\<forall>e\<in>set (vectors s).
               admits flt s (fst e) \<and> fst e \<notin> set (map id_of ?hs) \<longrightarrow>
               (\<forall>h\<in>set ?hs. dotProduct (normalizeVector q) (normalizeVector (snd e)) \<le> score h)"
  proof (intro ballI impI)
    fix e h
    assume e: "e \<in> set (vectors s)"
      and ad: "admits flt s (fst e) \<and> fst e \<notin> set (map id_of ?hs)"
      and h: "h \<in> set ?hs"
    from e ad have "?mk e \<in> set ?scan"
      unfolding scan by simp
    then have in_sorted: "?mk e \<in> set ?sorted"
      by simp
    from ad have "?mk e \<notin> set ?hs"
      by force
    with h in_sorted desc_all have "score h \<ge> score (?mk e)"
      unfolding take by (intro sorted_wrt_take_rest [where R = "\<lambda>a b. score a \<ge> score b"])
    then show "dotProduct (normalizeVector q) (normalizeVector (snd e)) \<le> score h"
      by simp
  qed
  from res len desc lex hits count dist best
  show "\<exists>hs. search (Some q) (Some k) flt s = Inr hs
         \<and> length hs \<le> nat k
         \<and> sorted_wrt (\<lambda>a b. score a \<ge> score b) hs
         \<and> sorted_wrt (\<lambda>a b. score a > score b
               \<or> (score a = score b
                   \<and> index_of (Map_keys (vectors s)) (id_of a)
                       < index_of (Map_keys (vectors s)) (id_of b))) hs
         \<and> (\<forall>h\<in>set hs.
               (\<forall>ex. excludeIds flt = Some ex \<longrightarrow> id_of h \<notin> set ex)
               \<and> (\<forall>c. category flt = Some c \<and> truthy c \<longrightarrow>
                      (\<exists>m. map_of (metadata s) (id_of h) = Some m \<and> m ''category'' = Some c))
               \<and> (\<exists>v. map_of (vectors s) (id_of h) = Some v
                      \<and> score h = dotProduct (normalizeVector q) (normalizeVector v)))
         \<and> length hs = min (nat k) (length (filter (\<lambda>e. admits flt s (fst e)) (vectors s)))
         \<and> distinct (map id_of hs)
         \<and> (\<forall>e\<in>set (vectors s).
               admits flt s (fst e) \<and> fst e \<notin> set (map id_of hs) \<longrightarrow>
               (\<forall>h\<in>set hs. dotProduct (normalizeVector q) (normalizeVector (snd e)) \<le> score h))"
    by (intro exI [of _ ?hs] conjI)
next
  show "search (Some q) None flt s = search (Some q) (Some (topK s)) flt s"
    by (simp add: search_def)
next
  show "search (Some q) (Some 0) flt s = search (Some q) (Some (topK s)) flt s"
    by (simp add: search_def)
next
  show "search None topK' flt s = Inl (Error ''Query vector is required'')"
    by (simp add: search_def)
next
  show "search (Some []) topK' flt s = Inl (Error ''Query vector is required'')"
    by (simp add: search_def)
qed

theorem search_results_witness:
  "Map_wf (vectors store6) \<and> [3, 4 :: real] \<noteq> [] \<and> (0 :: int) < 3
   \<and> length (filter (\<lambda>e. admits work_filter store6 (fst e)) (vectors store6)) = 4
   \<and> (\<exists>hs. search (Some [3, 4]) (Some 3) work_filter store6 = Inr hs
         \<and> map id_of hs = [''n1'', ''n3'', ''n2'']
         \<and> map score hs = [1, 1, 24 / 25]
         \<and> length hs = min (nat 3) 4
         \<and> sorted_wrt (\<lambda>a b. score a > score b
               \<or> (score a = score b
                   \<and> index_of (Map_keys (vectors store6)) (id_of a)
                       < index_of (Map_keys (vectors store6)) (id_of b))) hs
         \<and> list_all (\<lambda>h. id_of h \<noteq> ''n5'') hs
         \<and> list_all (\<lambda>h. map_option (\<lambda>m. m ''category'') (map_of (metadata store6) (id_of h))
                            = Some (Some (JStr ''work''))) hs
         \<and> list_all (\<lambda>h. dotProduct (normalizeVector [3, 4]) (normalizeVector [1, 0]) \<le> score h) hs)
   \<and> search (Some [3, 4]) None work_filter store6 = search (Some [3, 4]) (Some 5) work_filter store6
   \<and> search None (Some 3) work_filter store6 = Inl (Error ''Query vector is required'')
   \<and> search (Some []) (Some 3) work_filter store6 = Inl (Error ''Query vector is required'')"
proof -
  have wf: "Map_wf (vectors store6)"
    by (simp add: store6_maps Map_wf_def Map_keys_def)
  have adm: "length (filter (\<lambda>e. admits work_filter store6 (fst e)) (vectors store6)) = 4"
    by (simp add: store6_maps admits_def work_filter_def)
  have n6: "(''n6'', [1, 0]) \<in> set (vectors store6)" "admits work_filter store6 ''n6''"
    by (simp_all add: store6_maps admits_def work_filter_def)
  note t = search_results [of store6 "[3, 4]" 3 work_filter "Some 3"]
  from t wf obtain hs where hs:
    "search (Some [3, 4]) (Some 3) work_filter store6 = Inr hs"
    "sorted_wrt (\<lambda>a b. score a > score b
               \<or> (score a = score b
                   \<and> index_of (Map_keys (vectors store6)) (id_of a)
                       < index_of (Map_keys (vectors store6)) (id_of b))) hs"
    "\<forall>h\<in>set hs.
               (\<forall>ex. excludeIds work_filter = Some ex \<longrightarrow> id_of h \<notin> set ex)
               \<and> (\<forall>c. category work_filter = Some c \<and> truthy c \<longrightarrow>
                      (\<exists>m. map_of (metadata store6) (id_of h) = Some m \<and> m ''category'' = Some c))"
    "length hs = min (nat 3) (length (filter (\<lambda>e. admits work_filter store6 (fst e)) (vectors store6)))"
    "\<forall>e\<in>set (vectors store6).
               admits work_filter store6 (fst e) \<and> fst e \<notin> set (map id_of hs) \<longrightarrow>
               (\<forall>h\<in>set hs. dotProduct (normalizeVector [3, 4]) (normalizeVector (snd e)) \<le> score h)"
    by auto
  from hs(1) have val: "hs =
      [\<lparr>id_of = ''n1'', score = 1,
            metadata_of = [''category'' \<mapsto> JStr ''work'', ''addedAt'' \<mapsto> JStr ''t1'']\<rparr>,
          \<lparr>id_of = ''n3'', score = 1,
            metadata_of = [''category'' \<mapsto> JStr ''work'', ''addedAt'' \<mapsto> JStr ''t1'']\<rparr>,
          \<lparr>id_of = ''n2'', score = 24 / 25,
            metadata_of = [''category'' \<mapsto> JStr ''work'', ''addedAt'' \<mapsto> JStr ''t1'']\<rparr>]"
    by (simp add: search_store6)
  then have ids: "map id_of hs = [''n1'', ''n3'', ''n2'']" and scores: "map score hs = [1, 1, 24 / 25]"
    by simp_all
  from hs(3) have ex: "list_all (\<lambda>h. id_of h \<noteq> ''n5'') hs"
    by (simp add: list_all_iff work_filter_def)
  from hs(3) have cat: "list_all (\<lambda>h. map_option (\<lambda>m. m ''category'') (map_of (metadata store6) (id_of h))
                            = Some (Some (JStr ''work''))) hs"
    by (auto simp: list_all_iff work_filter_def)
  from hs(5) n6 ids
  have low: "list_all (\<lambda>h. dotProduct (normalizeVector [3, 4]) (normalizeVector [1, 0]) \<le> score h) hs"
    by (fastforce simp: list_all_iff)
  from hs(1) ids scores hs(4) adm hs(2) ex cat low
  have 1: "\<exists>hs. search (Some [3, 4]) (Some 3) work_filter store6 = Inr hs
         \<and> map id_of hs = [''n1'', ''n3'', ''n2'']
         \<and> map score hs = [1, 1, 24 / 25]
         \<and> length hs = min (nat 3) 4
         \<and> sorted_wrt (\<lambda>a b. score a > score b
               \<or> (score a = score b
                   \<and> index_of (Map_keys (vectors store6)) (id_of a)
                       < index_of (Map_keys (vectors store6)) (id_of b))) hs
         \<and> list_all (\<lambda>h. id_of h \<noteq> ''n5'') hs
         \<and> list_all (\<lambda>h. map_option (\<lambda>m. m ''category'') (map_of (metadata store6) (id_of h))
                            = Some (Some (JStr ''work''))) hs
         \<and> list_all (\<lambda>h. dotProduct (normalizeVector [3, 4]) (normalizeVector [1, 0]) \<le> score h) hs"
    by (intro exI [of _ hs]) simp
  from t have 2: "search (Some [3, 4]) None work_filter store6
                    = search (Some [3, 4]) (Some 5) work_filter store6"
    "search None (Some 3) work_filter store6 = Inl (Error ''Query vector is required'')"
    "search (Some []) (Some 3) work_filter store6 = Inl (Error ''Query vector is required'')"
    by (simp_all add: store6_maps)
  from wf adm 1 2 show ?thesis
    by simp
qed

text \<open>
  C1 as stated fails in two ways. For \<open>k = 0\<close>, \<open>topK || this.topK\<close> takes the configured
  default (5 in the example), and the search over the one record returns that record.
  For the category filter \<open>''\<close> (the empty string, which is falsy) the category test is
  skipped, and the record \<open>n1\<close> is returned although its category is \<open>work\<close>.
\<close>

theorem search_as_stated_counterexample:
  "map_sum id length
     (search (Some [3, 4]) (Some 0) \<lparr>excludeIds = None, category = None\<rparr> (fst state1))
   = Inr 1
   \<and> map_sum id (map id_of)
       (search (Some [3, 4]) (Some 3) \<lparr>excludeIds = None, category = Some (JStr [])\<rparr> (fst state1))
     = Inr [''n1'']
   \<and> map_option (\<lambda>m. m ''category'') (map_of (metadata (fst state1)) ''n1'')
     = Some (Some (JStr ''work''))"
  by (simp add: search_def state1_eval slice0_def Let_def)

text \<open>
  C10. In every reachable state the two maps hold the same set of IDs, so every hit
  that \<open>search\<close> returns carries the metadata entry stored for its ID.
\<close>

theorem reachable_keys_agree:
  assumes "reachable (s, d)"
  shows "keys_agree s
       \<and> set (Map_keys (vectors s)) = set (Map_keys (metadata s))
       \<and> (\<forall>qv topK' flt hs. search qv topK' flt s = Inr hs \<longrightarrow>
             (\<forall>h\<in>set hs. map_of (metadata s) (id_of h) = Some (metadata_of h)))"
proof -
  from reachable_store_ok [OF assms] have agree: "keys_agree s"
    by (simp add: store_ok_def)
  have "map_of (metadata s) (id_of h) = Some (metadata_of h)"
    if res: "search qv topK' flt s = Inr hs" and h: "h \<in> set hs" for qv topK' flt hs h
  proof -
    from search_hits [OF res h] obtain q where
      "h \<in> set (search_scan s flt (normalizeVector q) (vectors s))"
      by blast
    note p = search_scan_hit [OF this]
    from p obtain v where "(id_of h, v) \<in> set (vectors s)" by blast
    then have "id_of h \<in> set (Map_keys (vectors s))"
      by (force simp: Map_keys_def)
    with agree have "id_of h \<in> set (Map_keys (metadata s))"
      by (simp add: keys_agree_def)
    then obtain m where "map_of (metadata s) (id_of h) = Some m"
      by (metis Map_has_def Map_has_keys not_Some_eq)
    with p show ?thesis by simp
  qed
  with agree show ?thesis
    by (auto simp: keys_agree_def)
qed

theorem reachable_keys_agree_witness:
  "reachable (fst state1, snd state1)
   \<and> keys_agree (fst state1)
   \<and> (\<exists>hs. search (Some [3, 4]) None \<lparr>excludeIds = None, category = None\<rparr> (fst state1) = Inr hs
         \<and> length hs = 1
         \<and> list_all (\<lambda>h. map_of (metadata (fst state1)) (id_of h) = Some (metadata_of h)) hs)"
proof -
  have r: "reachable (fst state1, snd state1)"
    using reachable_state1 by simp
  note t = reachable_keys_agree [OF r]
  obtain hs where hs:
    "search (Some [3, 4]) None \<lparr>excludeIds = None, category = None\<rparr> (fst state1) = Inr hs"
    "length hs = 1"
    by (simp add: search_def state1_eval slice0_def Let_def)
  from t hs(1) have "\<forall>h\<in>set hs. map_of (metadata (fst state1)) (id_of h) = Some (metadata_of h)"
    by blast
  then have "list_all (\<lambda>h. map_of (metadata (fst state1)) (id_of h) = Some (metadata_of h)) hs"
    by (simp add: list_all_iff)
  with r t hs show ?thesis by blast
qed

section \<open>Facts about the score fusion\<close>

lemma index_of_less: "x \<in> set xs \<Longrightarrow> index_of xs x < length xs"
  by (induction xs) auto

lemma add_semantic_wf:
  "Map_wf m \<Longrightarrow> Map_wf (add_semantic w n idx rs m)"
  by (induction rs arbitrary: idx m) (simp_all add: Let_def Map_wf_Map_set)

lemma add_keyword_wf:
  "Map_wf m \<Longrightarrow> Map_wf (add_keyword w n idx ns m)"
  by (induction ns arbitrary: idx m) (simp_all add: Let_def Map_wf_Map_set split: option.splits)

lemma add_semantic_lookup:
  assumes "distinct (map id_of rs)"
  shows "map_of (add_semantic w n idx rs m) k =
           (if k \<in> set (map id_of rs)
            then Some \<lparr>cid = k,
                       semanticScore = (1 - real (idx + index_of (map id_of rs) k) / real n) * w,
                       keywordScore = 0\<rparr>
            else map_of m k)"
  using assms
proof (induction rs arbitrary: idx m)
  case Nil
  then show ?case by simp
next
  case (Cons r rs)
  from Cons.prems have d: "distinct (map id_of rs)" and fresh: "id_of r \<notin> set (map id_of rs)"
    by simp_all
  show ?case
  proof (cases "k \<in> set (map id_of rs)")
    case True
    with fresh have "k \<noteq> id_of r" by force
    with True Cons.IH [OF d] show ?thesis
      by (simp add: Let_def)
  next
    case False
    with Cons.IH [OF d] show ?thesis
      by (simp add: Let_def map_of_Map_set)
  qed
qed

lemma add_keyword_lookup:
  assumes "distinct (map note_id ns)"
  shows "map_of (add_keyword w n idx ns m) k =
           (if k \<in> set (map note_id ns)
            then Some (case map_of m k of
                         Some item \<Rightarrow>
                           item\<lparr>keywordScore :=
                                  (1 - real (idx + index_of (map note_id ns) k) / real n) * (1 - w)\<rparr>
                       | None \<Rightarrow>
                           \<lparr>cid = k, semanticScore = 0,
                            keywordScore =
                              (1 - real (idx + index_of (map note_id ns) k) / real n) * (1 - w)\<rparr>)
            else map_of m k)"
  using assms
proof (induction ns arbitrary: idx m)
  case Nil
  then show ?case by simp
next
  case (Cons x ns)
  from Cons.prems have d: "distinct (map note_id ns)" and fresh: "note_id x \<notin> set (map note_id ns)"
    by simp_all
  show ?case
  proof (cases "k \<in> set (map note_id ns)")
    case True
    with fresh have "k \<noteq> note_id x" by force
    with True Cons.IH [OF d] show ?thesis
      by (simp add: Let_def map_of_Map_set split: option.splits)
  next
    case False
    with Cons.IH [OF d] show ?thesis
      by (simp add: Let_def map_of_Map_set split: option.splits)
  qed
qed

text \<open>The entry of an ID in \<open>combinedScores\<close> after both passes.\<close>

lemma combinedScores_lookup:
  assumes "distinct (map id_of sem)" and "distinct (map note_id kw)"
  shows "map_of (add_keyword w (length kw) 0 kw (add_semantic w (length sem) 0 sem [])) k =
           (if k \<in> set (map id_of sem) \<or> k \<in> set (map note_id kw)
            then Some \<lparr>cid = k,
                       semanticScore =
                         (if k \<in> set (map id_of sem)
                          then (1 - real (index_of (map id_of sem) k) / real (length sem)) * w
                          else 0),
                       keywordScore =
                         (if k \<in> set (map note_id kw)
                          then (1 - real (index_of (map note_id kw) k) / real (length kw)) * (1 - w)
                          else 0)\<rparr>
            else None)"
  by (simp add: add_keyword_lookup [OF assms(2)] add_semantic_lookup [OF assms(1)])

lemma scoredResults_member:
  assumes "r \<in> set (scoredResults sem kw w parsedLimit)"
  shows "\<exists>k e. (k, e) \<in> set (add_keyword w (length kw) 0 kw (add_semantic w (length sem) 0 sem []))
               \<and> r = with_total e"
proof -
  from assms have "r \<in> set (map (with_total \<circ> snd)
       (add_keyword w (length kw) 0 kw (add_semantic w (length sem) 0 sem [])))"
    using set_slice0 by (fastforce simp: scoredResults_def Let_def)
  then show ?thesis by force
qed

lemma combinedScores_entry:
  assumes "distinct (map id_of sem)" and "distinct (map note_id kw)"
    and "(k, e) \<in> set (add_keyword w (length kw) 0 kw (add_semantic w (length sem) 0 sem []))"
  shows "(k \<in> set (map id_of sem) \<or> k \<in> set (map note_id kw))
       \<and> e = \<lparr>cid = k, semanticScore = contribution (map id_of sem) w k,
               keywordScore = contribution (map note_id kw) (1 - w) k\<rparr>"
proof -
  let ?C = "add_keyword w (length kw) 0 kw (add_semantic w (length sem) 0 sem [])"
  have "Map_wf ?C"
    by (intro add_keyword_wf add_semantic_wf) (simp add: Map_wf_def Map_keys_def)
  then have "distinct (map fst ?C)"
    by (simp add: Map_wf_def Map_keys_def)
  with assms(3) have "map_of ?C k = Some e"
    by simp
  then show ?thesis
    unfolding combinedScores_lookup [OF assms(1) assms(2)] contribution_def
    by (simp split: if_splits)
qed

lemma combinedScores_keys:
  assumes "distinct (map id_of sem)" and "distinct (map note_id kw)"
  shows "set (map fst (add_keyword w (length kw) 0 kw (add_semantic w (length sem) 0 sem [])))
           = set (map id_of sem) \<union> set (map note_id kw)"
proof -
  let ?C = "add_keyword w (length kw) 0 kw (add_semantic w (length sem) 0 sem [])"
  have "k \<in> set (map fst ?C) \<longleftrightarrow> k \<in> set (map id_of sem) \<union> set (map note_id kw)" for k
  proof -
    have "k \<in> set (map fst ?C) \<longleftrightarrow> map_of ?C k \<noteq> None"
      by (simp add: map_of_eq_None_iff)
    also have "\<dots> \<longleftrightarrow> k \<in> set (map id_of sem) \<union> set (map note_id kw)"
      unfolding combinedScores_lookup [OF assms] by simp
    finally show ?thesis .
  qed
  then show ?thesis by blast
qed

lemma combinedScores_cids:
  assumes "distinct (map id_of sem)" and "distinct (map note_id kw)"
  shows "map cid (map (with_total \<circ> snd)
                    (add_keyword w (length kw) 0 kw (add_semantic w (length sem) 0 sem [])))
           = map fst (add_keyword w (length kw) 0 kw (add_semantic w (length sem) 0 sem []))"
proof -
  let ?C = "add_keyword w (length kw) 0 kw (add_semantic w (length sem) 0 sem [])"
  have "cid (with_total (snd p)) = fst p" if "p \<in> set ?C" for p
  proof -
    from that have "(fst p, snd p) \<in> set ?C" by simp
    from combinedScores_entry [OF assms this] show ?thesis
      by (simp add: with_total_def)
  qed
  then show ?thesis by simp
qed

section \<open>The claim about hybrid search\<close>

lemma slice0_all: "int (length xs) \<le> k \<Longrightarrow> slice0 xs k = xs"
  by (simp add: slice0_def)

lemma slice0_take: "0 \<le> k \<Longrightarrow> slice0 xs k = take (nat k) xs"
  by (simp add: slice0_def)

text \<open>
  C7. For a semantic list and a lexical list, each ranked best-first and without
  repeated IDs, and a limit that is not negative: there are as many fused results as
  the limit asks for, or one for every ID of the two lists when these are fewer; each
  ID occurs once; a result's semantic score is the contribution \<open>(1 - i/N\<^sub>1) * w\<close> of the
  semantic list, its keyword score the contribution \<open>(1 - j/N\<^sub>2) * (1 - w)\<close> of the
  lexical list (0 from a list that does not have the ID), its total their sum; the
  results are sorted by descending total, and an ID that is cut has a total no higher
  than any result. For the semantic list \<open>[A, B, C]\<close>, the lexical list \<open>[B, D]\<close> and
  \<open>w = 0.7\<close> the order is \<open>B, A, C, D\<close>: \<open>A\<close> is above \<open>D\<close>, and \<open>B\<close> is above every
  ID that is in one list only; a limit of 2 leaves \<open>B, A\<close>.
\<close>

theorem hybrid_ranking:
  "(distinct (map id_of sem) \<and> distinct (map note_id kw) \<and> 0 \<le> parsedLimit \<longrightarrow>
      length (scoredResults sem kw w parsedLimit)
        = min (nat parsedLimit) (card (set (map id_of sem) \<union> set (map note_id kw)))
      \<and> length (scoredResults sem kw w parsedLimit) \<le> nat parsedLimit
      \<and> sorted_wrt (\<lambda>a b. totalScore a \<ge> totalScore b) (scoredResults sem kw w parsedLimit)
      \<and> distinct (map cid (scoredResults sem kw w parsedLimit))
      \<and> (\<forall>r\<in>set (scoredResults sem kw w parsedLimit).
            (cid r \<in> set (map id_of sem) \<or> cid r \<in> set (map note_id kw))
            \<and> semanticScore r = contribution (map id_of sem) w (cid r)
            \<and> keywordScore r = contribution (map note_id kw) (1 - w) (cid r)
            \<and> totalScore r = semanticScore r + keywordScore r
            \<and> totalScore r = fused (map id_of sem) (map note_id kw) w (cid r))
      \<and> (\<forall>k\<in>set (map id_of sem) \<union> set (map note_id kw).
            k \<notin> set (map cid (scoredResults sem kw w parsedLimit)) \<longrightarrow>
            (\<forall>r\<in>set (scoredResults sem kw w parsedLimit).
               fused (map id_of sem) (map note_id kw) w k \<le> totalScore r)))
   \<and> (map id_of sem3 = [A, B, C] \<and> map note_id kw2 = [B, D] \<and> distinct [A, B, C, D]
        \<and> 4 \<le> limit4 \<longrightarrow>
        map cid (scoredResults sem3 kw2 (7 / 10) limit4) = [B, A, C, D]
        \<and> map totalScore (scoredResults sem3 kw2 (7 / 10) limit4) = [23 / 30, 7 / 10, 7 / 30, 3 / 20])
   \<and> (map id_of sem3 = [A, B, C] \<and> map note_id kw2 = [B, D] \<and> distinct [A, B, C, D] \<longrightarrow>
        map cid (scoredResults sem3 kw2 (7 / 10) 2) = [B, A]
        \<and> map cid (scoredResults sem3 kw2 (7 / 10) 0) = [])"
proof (intro conjI)
  show "distinct (map id_of sem) \<and> distinct (map note_id kw) \<and> 0 \<le> parsedLimit \<longrightarrow>
      length (scoredResults sem kw w parsedLimit)
        = min (nat parsedLimit) (card (set (map id_of sem) \<union> set (map note_id kw)))
      \<and> length (scoredResults sem kw w parsedLimit) \<le> nat parsedLimit
      \<and> sorted_wrt (\<lambda>a b. totalScore a \<ge> totalScore b) (scoredResults sem kw w parsedLimit)
      \<and> distinct (map cid (scoredResults sem kw w parsedLimit))
      \<and> (\<forall>r\<in>set (scoredResults sem kw w parsedLimit).
            (cid r \<in> set (map id_of sem) \<or> cid r \<in> set (map note_id kw))
            \<and> semanticScore r = contribution (map id_of sem) w (cid r)
            \<and> keywordScore r = contribution (map note_id kw) (1 - w) (cid r)
            \<and> totalScore r = semanticScore r + keywordScore r
            \<and> totalScore r = fused (map id_of sem) (map note_id kw) w (cid r))
      \<and> (\<forall>k\<in>set (map id_of sem) \<union> set (map note_id kw).
            k \<notin> set (map cid (scoredResults sem kw w parsedLimit)) \<longrightarrow>
            (\<forall>r\<in>set (scoredResults sem kw w parsedLimit).
               fused (map id_of sem) (map note_id kw) w k \<le> totalScore r))"
  proof
    assume a: "distinct (map id_of sem) \<and> distinct (map note_id kw) \<and> 0 \<le> parsedLimit"
    then have ds: "distinct (map id_of sem)" and dk: "distinct (map note_id kw)"
      by simp_all
    let ?C = "add_keyword w (length kw) 0 kw (add_semantic w (length sem) 0 sem [])"
    let ?M = "map (with_total \<circ> snd) ?C"
    let ?full = "sort_key (\<lambda>r. - totalScore r) ?M"
    let ?R = "scoredResults sem kw w parsedLimit"
    have R: "?R = take (nat parsedLimit) ?full"
      using a by (simp add: scoredResults_def slice0_take)
    have "Map_wf ?C"
      by (intro add_keyword_wf add_semantic_wf) (simp add: Map_wf_def Map_keys_def)
    then have dC: "distinct (map fst ?C)"
      by (simp add: Map_wf_def Map_keys_def)
    have keys: "set (map fst ?C) = set (map id_of sem) \<union> set (map note_id kw)"
      by (rule combinedScores_keys [OF ds dk])
    have cids: "map cid ?M = map fst ?C"
      by (rule combinedScores_cids [OF ds dk])
    from dC have "card (set (map fst ?C)) = length (map fst ?C)"
      by (rule distinct_card)
    then have lenC: "length ?full = card (set (map id_of sem) \<union> set (map note_id kw))"
      unfolding keys by simp
    have len: "length ?R = min (nat parsedLimit) (card (set (map id_of sem) \<union> set (map note_id kw)))"
      unfolding R using lenC by (simp add: min.commute)
    have le: "length ?R \<le> nat parsedLimit"
      unfolding R by simp
    have "sorted (map (\<lambda>r. - totalScore r) ?full)"
      by (rule sorted_sort_key)
    then have desc_full: "sorted_wrt (\<lambda>a b. totalScore a \<ge> totalScore b) ?full"
      by (simp add: sorted_map)
    then have desc: "sorted_wrt (\<lambda>a b. totalScore a \<ge> totalScore b) ?R"
      unfolding R by (rule sorted_wrt_take')
    have "distinct (map cid ?M)"
      unfolding cids by (rule dC)
    then have "distinct (map cid ?full)"
      by (rule distinct_map_sort_key)
    then have dist: "distinct (map cid ?R)"
      unfolding R by (simp add: take_map [symmetric] del: take_map)
    have member: "(cid r \<in> set (map id_of sem) \<or> cid r \<in> set (map note_id kw))
            \<and> semanticScore r = contribution (map id_of sem) w (cid r)
            \<and> keywordScore r = contribution (map note_id kw) (1 - w) (cid r)
            \<and> totalScore r = semanticScore r + keywordScore r
            \<and> totalScore r = fused (map id_of sem) (map note_id kw) w (cid r)"
      if "r \<in> set ?full" for r
    proof -
      from that obtain k e where ke: "(k, e) \<in> set ?C" and r: "r = with_total e"
        by force
      from combinedScores_entry [OF ds dk ke] show ?thesis
        by (auto simp: r with_total_def fused_def)
    qed
    have members: "\<forall>r\<in>set ?R.
            (cid r \<in> set (map id_of sem) \<or> cid r \<in> set (map note_id kw))
            \<and> semanticScore r = contribution (map id_of sem) w (cid r)
            \<and> keywordScore r = contribution (map note_id kw) (1 - w) (cid r)
            \<and> totalScore r = semanticScore r + keywordScore r
            \<and> totalScore r = fused (map id_of sem) (map note_id kw) w (cid r)"
    proof
      fix r assume "r \<in> set ?R"
      then have "r \<in> set ?full"
        unfolding R by (rule in_set_takeD)
      then show "(cid r \<in> set (map id_of sem) \<or> cid r \<in> set (map note_id kw))
            \<and> semanticScore r = contribution (map id_of sem) w (cid r)
            \<and> keywordScore r = contribution (map note_id kw) (1 - w) (cid r)
            \<and> totalScore r = semanticScore r + keywordScore r
            \<and> totalScore r = fused (map id_of sem) (map note_id kw) w (cid r)"
        by (rule member)
    qed
    have cut: "\<forall>k\<in>set (map id_of sem) \<union> set (map note_id kw).
            k \<notin> set (map cid ?R) \<longrightarrow>
            (\<forall>r\<in>set ?R. fused (map id_of sem) (map note_id kw) w k \<le> totalScore r)"
    proof (intro ballI impI)
      fix k r
      assume k: "k \<in> set (map id_of sem) \<union> set (map note_id kw)"
        and out: "k \<notin> set (map cid ?R)" and r: "r \<in> set ?R"
      from k keys cids have "k \<in> set (map cid ?M)"
        by simp
      then obtain x where x: "x \<in> set ?full" "cid x = k"
        by auto
      from out x(2) have "x \<notin> set ?R"
        by auto
      with r x(1) desc_full have "totalScore r \<ge> totalScore x"
        unfolding R by (intro sorted_wrt_take_rest [where R = "\<lambda>a b. totalScore a \<ge> totalScore b"])
      moreover from member [OF x(1)] x(2)
      have "totalScore x = fused (map id_of sem) (map note_id kw) w k"
        by simp
      ultimately show "fused (map id_of sem) (map note_id kw) w k \<le> totalScore r"
        by simp
    qed
    from len le desc dist members cut
    show "length (scoredResults sem kw w parsedLimit)
        = min (nat parsedLimit) (card (set (map id_of sem) \<union> set (map note_id kw)))
      \<and> length (scoredResults sem kw w parsedLimit) \<le> nat parsedLimit
      \<and> sorted_wrt (\<lambda>a b. totalScore a \<ge> totalScore b) (scoredResults sem kw w parsedLimit)
      \<and> distinct (map cid (scoredResults sem kw w parsedLimit))
      \<and> (\<forall>r\<in>set (scoredResults sem kw w parsedLimit).
            (cid r \<in> set (map id_of sem) \<or> cid r \<in> set (map note_id kw))
            \<and> semanticScore r = contribution (map id_of sem) w (cid r)
            \<and> keywordScore r = contribution (map note_id kw) (1 - w) (cid r)
            \<and> totalScore r = semanticScore r + keywordScore r
            \<and> totalScore r = fused (map id_of sem) (map note_id kw) w (cid r))
      \<and> (\<forall>k\<in>set (map id_of sem) \<union> set (map note_id kw).
            k \<notin> set (map cid (scoredResults sem kw w parsedLimit)) \<longrightarrow>
            (\<forall>r\<in>set (scoredResults sem kw w parsedLimit).
               fused (map id_of sem) (map note_id kw) w k \<le> totalScore r))"
      by (intro conjI)
  qed
next
  have sorted4: "sort_key (\<lambda>r. - totalScore r) (map (with_total \<circ> snd)
             [(A, \<lparr>cid = A, semanticScore = 7 / 10, keywordScore = 0\<rparr>),
              (B, \<lparr>cid = B, semanticScore = 7 / 15, keywordScore = 3 / 10\<rparr>),
              (C, \<lparr>cid = C, semanticScore = 7 / 30, keywordScore = 0\<rparr>),
              (D, \<lparr>cid = D, semanticScore = 0, keywordScore = 3 / 20\<rparr>)])
        = [\<lparr>cid = B, semanticScore = 7 / 15, keywordScore = 3 / 10, totalScore = 23 / 30\<rparr>,
           \<lparr>cid = A, semanticScore = 7 / 10, keywordScore = 0, totalScore = 7 / 10\<rparr>,
           \<lparr>cid = C, semanticScore = 7 / 30, keywordScore = 0, totalScore = 7 / 30\<rparr>,
           \<lparr>cid = D, semanticScore = 0, keywordScore = 3 / 20, totalScore = 3 / 20\<rparr>]"
    for A B C D :: string
    by (simp add: with_total_def)
  have combined: "add_keyword (7 / 10) (length kw2) 0 kw2 (add_semantic (7 / 10) (length sem3) 0 sem3 [])
           = [(A, \<lparr>cid = A, semanticScore = 7 / 10, keywordScore = 0\<rparr>),
              (B, \<lparr>cid = B, semanticScore = 7 / 15, keywordScore = 3 / 10\<rparr>),
              (C, \<lparr>cid = C, semanticScore = 7 / 30, keywordScore = 0\<rparr>),
              (D, \<lparr>cid = D, semanticScore = 0, keywordScore = 3 / 20\<rparr>)]"
    if a: "map id_of sem3 = [A, B, C] \<and> map note_id kw2 = [B, D] \<and> distinct [A, B, C, D]"
  proof -
    from a obtain h1 h2 h3 where sem3: "sem3 = [h1, h2, h3]"
      and ids: "id_of h1 = A" "id_of h2 = B" "id_of h3 = C"
      by (auto simp: map_eq_Cons_conv)
    from a obtain n1 n2 where kw2: "kw2 = [n1, n2]" and nids: "note_id n1 = B" "note_id n2 = D"
      by (auto simp: map_eq_Cons_conv)
    from a have ne: "A \<noteq> B" "A \<noteq> C" "A \<noteq> D" "B \<noteq> C" "B \<noteq> D" "C \<noteq> D"
      by simp_all
    from ne show ?thesis
      by (simp add: sem3 kw2 ids nids Let_def)
  qed
  show "map id_of sem3 = [A, B, C] \<and> map note_id kw2 = [B, D] \<and> distinct [A, B, C, D]
        \<and> 4 \<le> limit4 \<longrightarrow>
        map cid (scoredResults sem3 kw2 (7 / 10) limit4) = [B, A, C, D]
        \<and> map totalScore (scoredResults sem3 kw2 (7 / 10) limit4) = [23 / 30, 7 / 10, 7 / 30, 3 / 20]"
  proof
    assume a: "map id_of sem3 = [A, B, C] \<and> map note_id kw2 = [B, D] \<and> distinct [A, B, C, D]
        \<and> 4 \<le> limit4"
    then have c: "add_keyword (7 / 10) (length kw2) 0 kw2 (add_semantic (7 / 10) (length sem3) 0 sem3 [])
           = [(A, \<lparr>cid = A, semanticScore = 7 / 10, keywordScore = 0\<rparr>),
              (B, \<lparr>cid = B, semanticScore = 7 / 15, keywordScore = 3 / 10\<rparr>),
              (C, \<lparr>cid = C, semanticScore = 7 / 30, keywordScore = 0\<rparr>),
              (D, \<lparr>cid = D, semanticScore = 0, keywordScore = 3 / 20\<rparr>)]"
      by (intro combined) simp
    from a have "int (length [A, B, C, D]) \<le> limit4"
      by simp
    then show "map cid (scoredResults sem3 kw2 (7 / 10) limit4) = [B, A, C, D]
        \<and> map totalScore (scoredResults sem3 kw2 (7 / 10) limit4) = [23 / 30, 7 / 10, 7 / 30, 3 / 20]"
      unfolding scoredResults_def Let_def c sorted4
      by (subst (1 2) slice0_all) simp_all
  qed
  show "map id_of sem3 = [A, B, C] \<and> map note_id kw2 = [B, D] \<and> distinct [A, B, C, D] \<longrightarrow>
        map cid (scoredResults sem3 kw2 (7 / 10) 2) = [B, A]
        \<and> map cid (scoredResults sem3 kw2 (7 / 10) 0) = []"
  proof
    assume a: "map id_of sem3 = [A, B, C] \<and> map note_id kw2 = [B, D] \<and> distinct [A, B, C, D]"
    note c = combined [OF a]
    show "map cid (scoredResults sem3 kw2 (7 / 10) 2) = [B, A]
        \<and> map cid (scoredResults sem3 kw2 (7 / 10) 0) = []"
      unfolding scoredResults_def Let_def c sorted4
      by (simp add: slice0_def)
  qed
qed

theorem hybrid_ranking_witness:
  "distinct (map id_of semABC) \<and> distinct (map note_id kwBD) \<and> (0 :: int) \<le> 2
   \<and> card (set (map id_of semABC) \<union> set (map note_id kwBD)) = 4
   \<and> length (scoredResults semABC kwBD (7 / 10) 2) = 2
   \<and> map id_of semABC = [''A'', ''B'', ''C''] \<and> map note_id kwBD = [''B'', ''D'']
   \<and> distinct [''A'', ''B'', ''C'', ''D''] \<and> (4 :: int) \<le> 10
   \<and> map cid (scoredResults semABC kwBD (7 / 10) 10) = [''B'', ''A'', ''C'', ''D'']
   \<and> map totalScore (scoredResults semABC kwBD (7 / 10) 10) = [23 / 30, 7 / 10, 7 / 30, 3 / 20]
   \<and> map cid (scoredResults semABC kwBD (7 / 10) 2) = [''B'', ''A'']
   \<and> map cid (scoredResults semABC kwBD (7 / 10) 0) = []
   \<and> fused (map id_of semABC) (map note_id kwBD) (7 / 10) ''C'' = 7 / 30
   \<and> list_all (\<lambda>r. fused (map id_of semABC) (map note_id kwBD) (7 / 10) ''C'' \<le> totalScore r)
        (scoredResults semABC kwBD (7 / 10) 2)
   \<and> list_all (\<lambda>r. totalScore r = fused (map id_of semABC) (map note_id kwBD) (7 / 10) (cid r))
        (scoredResults semABC kwBD (7 / 10) 2)"
proof -
  have h: "distinct (map id_of semABC)" "distinct (map note_id kwBD)"
    "map id_of semABC = [''A'', ''B'', ''C'']" "map note_id kwBD = [''B'', ''D'']"
    "distinct [''A'', ''B'', ''C'', ''D'']"
    by (simp_all add: semABC_def kwBD_def)
  have card4: "card (set (map id_of semABC) \<union> set (map note_id kwBD)) = 4"
    unfolding h(3) h(4) by (simp add: card_insert_if)
  have fC: "fused (map id_of semABC) (map note_id kwBD) (7 / 10) ''C'' = 7 / 30"
    unfolding h(3) h(4) by (simp add: fused_def contribution_def)
  note t10 = hybrid_ranking [where sem = semABC and kw = kwBD and parsedLimit = 2 and w = "7 / 10"
      and ?sem3.0 = semABC and ?kw2.0 = kwBD and A = "''A''" and B = "''B''" and C = "''C''"
      and D = "''D''" and ?limit4.0 = 10]
  from t10 h have ex: "map cid (scoredResults semABC kwBD (7 / 10) 10) = [''B'', ''A'', ''C'', ''D'']"
    "map totalScore (scoredResults semABC kwBD (7 / 10) 10) = [23 / 30, 7 / 10, 7 / 30, 3 / 20]"
    "map cid (scoredResults semABC kwBD (7 / 10) 2) = [''B'', ''A'']"
    "map cid (scoredResults semABC kwBD (7 / 10) 0) = []"
    by simp_all
  have g: "distinct (map id_of semABC) \<and> distinct (map note_id kwBD) \<and> (0 :: int) \<le> 2"
    using h by simp
  note gen = t10 [THEN conjunct1, THEN mp, OF g]
  from gen card4 have len: "length (scoredResults semABC kwBD (7 / 10) 2) = 2"
    by simp
  from gen have cut: "\<forall>k\<in>set (map id_of semABC) \<union> set (map note_id kwBD).
            k \<notin> set (map cid (scoredResults semABC kwBD (7 / 10) 2)) \<longrightarrow>
            (\<forall>r\<in>set (scoredResults semABC kwBD (7 / 10) 2).
               fused (map id_of semABC) (map note_id kwBD) (7 / 10) k \<le> totalScore r)"
    by blast
  from gen have mem: "\<forall>r\<in>set (scoredResults semABC kwBD (7 / 10) 2).
               totalScore r = fused (map id_of semABC) (map note_id kwBD) (7 / 10) (cid r)"
    by blast
  have "''C'' \<in> set (map id_of semABC) \<union> set (map note_id kwBD)"
    "''C'' \<notin> set (map cid (scoredResults semABC kwBD (7 / 10) 2))"
    unfolding ex(3) h(3) h(4) by simp_all
  with cut have low: "list_all (\<lambda>r. fused (map id_of semABC) (map note_id kwBD) (7 / 10) ''C'' \<le> totalScore r)
        (scoredResults semABC kwBD (7 / 10) 2)"
    unfolding list_all_iff by blast
  from mem have tot: "list_all (\<lambda>r. totalScore r = fused (map id_of semABC) (map note_id kwBD) (7 / 10) (cid r))
        (scoredResults semABC kwBD (7 / 10) 2)"
    unfolding list_all_iff .
  from h card4 len ex fC low tot show ?thesis
    by simp
qed

section \<open>Facts about reindexAll\<close>

lemma addVector_sync_valid:
  assumes "i \<noteq> []"
  shows "\<exists>s'. addVector_sync (Some i) (Some v) meta now s = Inr s'
            \<and> vectors s' = Map_set i (processedVector (dimension s) v) (vectors s)
            \<and> metadata s' = Map_set i (meta(''addedAt'' \<mapsto> JStr now)) (metadata s)"
  using assms by (simp add: addVector_sync_def Let_def)

lemma addVector_sync_invalid:
  "addVector_sync (Some []) vector' meta now s = Inl (Error ''ID and vector are required'')"
  by (simp add: addVector_sync_def split: option.splits)

text \<open>The first phase for one note.\<close>

lemma reindex_start_fails:
  "\<not> reaches_store n \<Longrightarrow> reindex_start c now (e, s, pend) n = (e + 1, s, pend)"
  by (auto simp: reindex_start_def reaches_store_def generateEmbedding_def addVector_sync_invalid)

lemma reindex_start_stores:
  assumes "reaches_store n"
  shows "\<exists>s'. reindex_start c now (e, s, pend) n = (e, s', pend @ [n])
            \<and> (\<exists>v. vectors s' = Map_set (note_id n) v (vectors s))
            \<and> (\<exists>m. metadata s' = Map_set (note_id n) m (metadata s))"
proof -
  from assms have c: "content n \<noteq> []" and i: "note_id n \<noteq> []"
    by (simp_all add: reaches_store_def)
  from addVector_sync_valid [OF i] obtain s' where
    "addVector_sync (Some (note_id n))
        (Some (backend c (if length (content n) > 8000 then take 8000 (content n) else content n)))
        Map.empty now s = Inr s'"
    "\<exists>v. vectors s' = Map_set (note_id n) v (vectors s)"
    "\<exists>m. metadata s' = Map_set (note_id n) m (metadata s)"
    by blast
  with c show ?thesis
    by (simp add: reindex_start_def generateEmbedding_def)
qed

lemma reindex_start_fold:
  assumes "foldl (reindex_start c now) (e, s, pend) batch = (e', s', pend')"
  shows "e' = e + length (filter (\<lambda>n. \<not> reaches_store n) batch)
       \<and> pend' = pend @ filter reaches_store batch
       \<and> set (Map_keys (vectors s'))
           = set (Map_keys (vectors s)) \<union> note_id ` set (filter reaches_store batch)
       \<and> set (Map_keys (metadata s'))
           = set (Map_keys (metadata s)) \<union> note_id ` set (filter reaches_store batch)
       \<and> (Map_wf (vectors s) \<longrightarrow> Map_wf (vectors s'))"
  using assms
proof (induction batch arbitrary: e s pend)
  case Nil
  then show ?case by simp
next
  case (Cons n batch)
  show ?case
  proof (cases "reaches_store n")
    case False
    with Cons.prems have "foldl (reindex_start c now) (e + 1, s, pend) batch = (e', s', pend')"
      by (simp add: reindex_start_fails)
    from Cons.IH [OF this] False show ?thesis
      by simp
  next
    case True
    from reindex_start_stores [OF True, of c now e s pend] obtain s1 v m where
      step: "reindex_start c now (e, s, pend) n = (e, s1, pend @ [n])"
      and v: "vectors s1 = Map_set (note_id n) v (vectors s)"
      and m: "metadata s1 = Map_set (note_id n) m (metadata s)"
      by blast
    from Cons.prems step
    have "foldl (reindex_start c now) (e, s1, pend @ [n]) batch = (e', s', pend')"
      by simp
    from Cons.IH [OF this] True v m show ?thesis
      by (auto simp: set_keys_Map_set Map_wf_Map_set)
  qed
qed

text \<open>The second phase for one pending note, and for the pending notes of a batch.\<close>

lemma reindex_finish_step:
  assumes "reaches_store n"
  shows "reindex_finish c now s (p, e, d) n =
           (p + count_list (outcomes c (write_faults d) [n]) True,
            e + count_list (outcomes c (write_faults d) [n]) False,
            snd (save s now d))
       \<and> write_faults (snd (save s now d)) = tl (write_faults d)"
  using assms
  by (cases "write_faults d")
    (auto simp: reindex_finish_def save_def fs_writeFile_def split: prod.splits sum.splits)

lemma outcomes_Cons_reaching:
  "reaches_store n \<Longrightarrow>
     outcomes c faults (n # ns) = outcomes c faults [n] @ outcomes c (tl faults) ns"
  by simp

lemma reindex_finish_fold:
  assumes "\<forall>n\<in>set pend. reaches_store n"
    and "foldl (reindex_finish c now s) (p, e, d) pend = (p', e', d')"
  shows "p' = p + count_list (outcomes c (write_faults d) pend) True
       \<and> e' = e + count_list (outcomes c (write_faults d) pend) False
       \<and> write_faults d' = drop (length pend) (write_faults d)"
  using assms
proof (induction pend arbitrary: p e d)
  case Nil
  then show ?case by simp
next
  case (Cons n pend)
  from Cons.prems(1) have n: "reaches_store n" and rest: "\<forall>n\<in>set pend. reaches_store n"
    by simp_all
  note st = reindex_finish_step [OF n, of c now s p e d]
  let ?p1 = "p + count_list (outcomes c (write_faults d) [n]) True"
  let ?e1 = "e + count_list (outcomes c (write_faults d) [n]) False"
  let ?d1 = "snd (save s now d)"
  from Cons.prems(2) st
  have "foldl (reindex_finish c now s) (?p1, ?e1, ?d1) pend = (p', e', d')"
    by simp
  from Cons.IH [OF rest this] st
  have "p' = ?p1 + count_list (outcomes c (tl (write_faults d)) pend) True"
    "e' = ?e1 + count_list (outcomes c (tl (write_faults d)) pend) False"
    "write_faults d' = drop (length pend) (tl (write_faults d))"
    by simp_all
  then show ?case
    using n by (simp add: drop_Suc)
qed

text \<open>Facts about the outcomes.\<close>

lemma outcomes_append:
  "outcomes c faults (xs @ ys) =
     outcomes c faults xs @ outcomes c (drop (length (filter reaches_store xs)) faults) ys"
  by (induction xs arbitrary: faults) (simp_all add: drop_Suc)

lemma outcomes_reaching_only:
  "count_list (outcomes c faults ns) True
     = count_list (outcomes c faults (filter reaches_store ns)) True
   \<and> count_list (outcomes c faults ns) False
     = length (filter (\<lambda>n. \<not> reaches_store n) ns)
       + count_list (outcomes c faults (filter reaches_store ns)) False"
  by (induction ns arbitrary: faults) simp_all

lemma length_outcomes: "length (outcomes c faults ns) = length ns"
  by (induction ns arbitrary: faults) simp_all

lemma outcomes_total:
  "count_list (outcomes c faults ns) True + count_list (outcomes c faults ns) False = length ns"
proof -
  have "count_list bs True + count_list bs False = length bs" for bs :: "bool list"
    by (induction bs) auto
  from this [of "outcomes c faults ns"] show ?thesis
    by (simp add: length_outcomes)
qed

text \<open>One batch, and the loop over the batches.\<close>

lemma reindex_batch_effect:
  assumes "reindex_batch c now (p, e, s, d) batch = (p', e', s', d')"
  shows "p' = p + count_list (outcomes c (write_faults d) batch) True
       \<and> e' = e + count_list (outcomes c (write_faults d) batch) False
       \<and> write_faults d' = drop (length (filter reaches_store batch)) (write_faults d)
       \<and> set (Map_keys (vectors s'))
           = set (Map_keys (vectors s)) \<union> note_id ` set (filter reaches_store batch)
       \<and> set (Map_keys (metadata s'))
           = set (Map_keys (metadata s)) \<union> note_id ` set (filter reaches_store batch)
       \<and> (Map_wf (vectors s) \<longrightarrow> Map_wf (vectors s'))"
proof -
  obtain e1 s1 pend where a: "foldl (reindex_start c now) (e, s, []) batch = (e1, s1, pend)"
    by (cases "foldl (reindex_start c now) (e, s, []) batch") auto
  obtain p2 e2 d2 where b: "foldl (reindex_finish c now s1) (p, e1, d) pend = (p2, e2, d2)"
    by (cases "foldl (reindex_finish c now s1) (p, e1, d) pend") auto
  from assms a b have res: "p' = p2" "e' = e2" "s' = s1" "d' = d2"
    by (simp_all add: reindex_batch_def)
  note fa = reindex_start_fold [OF a]
  from fa have pend: "pend = filter reaches_store batch"
    by simp
  then have "\<forall>n\<in>set pend. reaches_store n"
    by simp
  note fb = reindex_finish_fold [OF this b]
  note oc = outcomes_reaching_only [of c "write_faults d" batch]
  from fa fb oc show ?thesis
    unfolding res pend by simp
qed

lemma reindex_batches_effect:
  "reindex_batches c now ns i (p, e, s, d) = (p', e', s', d') \<Longrightarrow>
     p' = p + count_list (outcomes c (write_faults d) (drop i ns)) True
     \<and> e' = e + count_list (outcomes c (write_faults d) (drop i ns)) False
     \<and> set (Map_keys (vectors s'))
         = set (Map_keys (vectors s)) \<union> note_id ` set (filter reaches_store (drop i ns))
     \<and> set (Map_keys (metadata s'))
         = set (Map_keys (metadata s)) \<union> note_id ` set (filter reaches_store (drop i ns))
     \<and> (Map_wf (vectors s) \<longrightarrow> Map_wf (vectors s'))"
proof (induction c now ns i "(p, e, s, d)" arbitrary: p e s d rule: reindex_batches.induct)
  case (1 c now ns i)
  show ?case
  proof (cases "i < length ns")
    case False
    with "1.prems" show ?thesis
      by (subst (asm) reindex_batches.simps) simp
  next
    case True
    let ?batch = "take 10 (drop i ns)"
    obtain p1 e1 s1 d1 where b: "reindex_batch c now (p, e, s, d) ?batch = (p1, e1, s1, d1)"
      by (cases "reindex_batch c now (p, e, s, d) ?batch") auto
    from "1.prems" True b
    have rest: "reindex_batches c now ns (i + 10) (p1, e1, s1, d1) = (p', e', s', d')"
      by (subst (asm) reindex_batches.simps) simp
    note ih = "1.hyps" [OF True b rest]
    note be = reindex_batch_effect [OF b]
    have "take 10 (drop i ns) @ drop 10 (drop i ns) = drop i ns"
      by (rule append_take_drop_id)
    then have split: "drop i ns = ?batch @ drop (i + 10) ns"
      by (simp add: add.commute)
    have oc: "outcomes c (write_faults d) (drop i ns)
                = outcomes c (write_faults d) ?batch @ outcomes c (write_faults d1) (drop (i + 10) ns)"
      using be by (subst split) (simp add: outcomes_append)
    have fl: "set (filter reaches_store (drop i ns))
                = set (filter reaches_store ?batch) \<union> set (filter reaches_store (drop (i + 10) ns))"
      by (subst split) simp
    from ih be show ?thesis
      unfolding oc fl by (auto simp: image_Un)
  qed
qed

lemma count_distinct_ids:
  assumes "distinct (map note_id ns)"
  shows "card (note_id ` {n \<in> set ns. P n}) = length (filter P ns)"
proof -
  from assms have d: "distinct ns" and inj: "inj_on note_id (set ns)"
    by (simp_all add: distinct_map)
  have eq: "{n \<in> set ns. P n} = set (filter P ns)"
    by auto
  have "inj_on note_id (set (filter P ns))"
    by (rule inj_on_subset [OF inj]) auto
  then have "card (note_id ` set (filter P ns)) = card (set (filter P ns))"
    by (rule card_image)
  moreover have "card (set (filter P ns)) = length (filter P ns)"
    by (rule distinct_card) (simp add: d)
  ultimately show ?thesis
    unfolding eq by simp
qed

text \<open>When nothing but the embedding can fail, a note succeeds exactly when it has a content.\<close>

lemma outcomes_steady:
  assumes "\<forall>n\<in>set ns. note_id n \<noteq> [] \<and> \<not> embedding_upsert_fails c (note_id n)
                        \<and> \<not> note_update_fails c (note_id n)"
  shows "outcomes c [] ns = map (\<lambda>n. content n \<noteq> []) ns"
  using assms by (induction ns) (simp_all add: reaches_store_def)

lemma count_list_map_True:
  "count_list (map P xs) True = length (filter P xs)"
  "count_list (map P xs) False = length (filter (\<lambda>x. \<not> P x) xs)"
  by (induction xs) simp_all

section \<open>The claim about reindexAll\<close>

text \<open>
  C6. With at least one note and a first write (the one of \<open>clear\<close>) that succeeds,
  \<open>reindexAll\<close> answers with the report \<open>{totalNotes, processed, errors}\<close> whatever
  fails for the single notes: \<open>processed\<close> is the number of notes that succeed
  (embedding, \<open>addVector\<close> with its write, both database calls), \<open>errors\<close> the number of
  the others, and the two add up to the number of notes; the store afterwards holds the
  records of the notes that got as far as the maps. When only the embedding can fail
  (no write fault, no failing database call, distinct non-empty note IDs), \<open>processed\<close>
  is the number of notes whose embedding succeeds, \<open>errors\<close> the number of the others,
  and the store afterwards holds exactly the records of the notes that succeeded.
\<close>

theorem reindexAll_report:
  "(ns \<noteq> [] \<and> next_write_ok d \<longrightarrow>
      (\<exists>s' d'. reindexAll c now (Inr ns) s d
                 = (Report (length ns)
                      (count_list (outcomes c (tl (write_faults d)) ns) True)
                      (count_list (outcomes c (tl (write_faults d)) ns) False), s', d')
         \<and> count_list (outcomes c (tl (write_faults d)) ns) True
             + count_list (outcomes c (tl (write_faults d)) ns) False = length ns
         \<and> set (Map_keys (vectors s')) = note_id ` {n \<in> set ns. reaches_store n}
         \<and> set (Map_keys (metadata s')) = note_id ` {n \<in> set ns. reaches_store n}))
   \<and> (ns \<noteq> [] \<and> write_faults d = [] \<and> distinct (map note_id ns)
        \<and> (\<forall>n\<in>set ns. note_id n \<noteq> [] \<and> \<not> embedding_upsert_fails c (note_id n)
                          \<and> \<not> note_update_fails c (note_id n)) \<longrightarrow>
        (\<exists>s' d'. reindexAll c now (Inr ns) s d
                   = (Report (length ns) (length (filter (\<lambda>n. content n \<noteq> []) ns))
                        (length (filter (\<lambda>n. content n = []) ns)), s', d')
           \<and> set (Map_keys (vectors s')) = note_id ` {n \<in> set ns. content n \<noteq> []}
           \<and> set (Map_keys (metadata s')) = note_id ` {n \<in> set ns. content n \<noteq> []}
           \<and> length (vectors s') = length (filter (\<lambda>n. content n \<noteq> []) ns)))"
proof -
  have general: "\<exists>s' d'. reindexAll c now (Inr ns) s d
                 = (Report (length ns)
                      (count_list (outcomes c (tl (write_faults d)) ns) True)
                      (count_list (outcomes c (tl (write_faults d)) ns) False), s', d')
         \<and> count_list (outcomes c (tl (write_faults d)) ns) True
             + count_list (outcomes c (tl (write_faults d)) ns) False = length ns
         \<and> set (Map_keys (vectors s')) = note_id ` {n \<in> set ns. reaches_store n}
         \<and> set (Map_keys (metadata s')) = note_id ` {n \<in> set ns. reaches_store n}
         \<and> Map_wf (vectors s')"
    if a: "ns \<noteq> [] \<and> next_write_ok d" for ns d
  proof -
    obtain r s1 d1 where cl: "clear now s d = (r, s1, d1)"
      by (cases "clear now s d") auto
    note cf = clear_fields [OF cl]
    from cf(5) a have r: "r = Inr ()" and d1: "write_faults d1 = tl (write_faults d)"
      by (auto simp: save_cases split: if_splits)
    obtain p e s2 d2 where rb: "reindex_batches c now ns 0 (0, 0, s1, d1) = (p, e, s2, d2)"
      by (cases "reindex_batches c now ns 0 (0, 0, s1, d1)") auto
    note eff = reindex_batches_effect [OF rb]
    from a cl r rb have res: "reindexAll c now (Inr ns) s d = (Report (length ns) p e, s2, d2)"
      by (simp add: reindexAll_def)
    have img: "note_id ` set (filter reaches_store ns) = note_id ` {n \<in> set ns. reaches_store n}"
      by simp
    from eff cf(1) cf(2) d1 have
      "p = count_list (outcomes c (tl (write_faults d)) ns) True"
      "e = count_list (outcomes c (tl (write_faults d)) ns) False"
      "set (Map_keys (vectors s2)) = note_id ` {n \<in> set ns. reaches_store n}"
      "set (Map_keys (metadata s2)) = note_id ` {n \<in> set ns. reaches_store n}"
      "Map_wf (vectors s2)"
      by (simp_all add: Map_keys_def Map_wf_def)
    with res outcomes_total [of c "tl (write_faults d)" ns] show ?thesis
      by (intro exI [of _ s2] exI [of _ d2]) simp
  qed
  have steady: "\<exists>s' d'. reindexAll c now (Inr ns) s d
                   = (Report (length ns) (length (filter (\<lambda>n. content n \<noteq> []) ns))
                        (length (filter (\<lambda>n. content n = []) ns)), s', d')
           \<and> set (Map_keys (vectors s')) = note_id ` {n \<in> set ns. content n \<noteq> []}
           \<and> set (Map_keys (metadata s')) = note_id ` {n \<in> set ns. content n \<noteq> []}
           \<and> length (vectors s') = length (filter (\<lambda>n. content n \<noteq> []) ns)"
    if a: "ns \<noteq> [] \<and> write_faults d = [] \<and> distinct (map note_id ns)
        \<and> (\<forall>n\<in>set ns. note_id n \<noteq> [] \<and> \<not> embedding_upsert_fails c (note_id n)
                          \<and> \<not> note_update_fails c (note_id n))"
  proof -
    from a have ok: "ns \<noteq> [] \<and> next_write_ok d" and tl: "tl (write_faults d) = []"
      by (simp_all add: next_write_ok_def)
    from a have hyp: "\<forall>n\<in>set ns. note_id n \<noteq> [] \<and> \<not> embedding_upsert_fails c (note_id n)
                          \<and> \<not> note_update_fails c (note_id n)"
      by simp
    from general [OF ok] obtain s' d' where g:
      "reindexAll c now (Inr ns) s d
                 = (Report (length ns)
                      (count_list (outcomes c (tl (write_faults d)) ns) True)
                      (count_list (outcomes c (tl (write_faults d)) ns) False), s', d')"
      "set (Map_keys (vectors s')) = note_id ` {n \<in> set ns. reaches_store n}"
      "set (Map_keys (metadata s')) = note_id ` {n \<in> set ns. reaches_store n}"
      "Map_wf (vectors s')"
      by blast
    have oc: "outcomes c (tl (write_faults d)) ns = map (\<lambda>n. content n \<noteq> []) ns"
      unfolding tl by (rule outcomes_steady [OF hyp])
    have same: "{n \<in> set ns. reaches_store n} = {n \<in> set ns. content n \<noteq> []}"
      using hyp by (auto simp: reaches_store_def)
    from g(4) have "card (set (Map_keys (vectors s'))) = length (Map_keys (vectors s'))"
      unfolding Map_wf_def by (rule distinct_card)
    moreover have "length (Map_keys (vectors s')) = length (vectors s')"
      by (simp add: Map_keys_def)
    moreover have "card (set (Map_keys (vectors s'))) = length (filter (\<lambda>n. content n \<noteq> []) ns)"
      unfolding g(2) same using a by (intro count_distinct_ids) simp
    ultimately have len: "length (vectors s') = length (filter (\<lambda>n. content n \<noteq> []) ns)"
      by simp
    from g(1) g(2) g(3) len show ?thesis
      unfolding oc same by (intro exI [of _ s'] exI [of _ d']) (simp add: count_list_map_True)
  qed
  show ?thesis
  proof (rule conjI; rule impI)
    assume "ns \<noteq> [] \<and> next_write_ok d"
    from general [OF this]
    show "\<exists>s' d'. reindexAll c now (Inr ns) s d
                 = (Report (length ns)
                      (count_list (outcomes c (tl (write_faults d)) ns) True)
                      (count_list (outcomes c (tl (write_faults d)) ns) False), s', d')
         \<and> count_list (outcomes c (tl (write_faults d)) ns) True
             + count_list (outcomes c (tl (write_faults d)) ns) False = length ns
         \<and> set (Map_keys (vectors s')) = note_id ` {n \<in> set ns. reaches_store n}
         \<and> set (Map_keys (metadata s')) = note_id ` {n \<in> set ns. reaches_store n}"
      by (elim exE conjE, intro exI conjI) assumption+
  next
    assume "ns \<noteq> [] \<and> write_faults d = [] \<and> distinct (map note_id ns)
        \<and> (\<forall>n\<in>set ns. note_id n \<noteq> [] \<and> \<not> embedding_upsert_fails c (note_id n)
                          \<and> \<not> note_update_fails c (note_id n))"
    then show "\<exists>s' d'. reindexAll c now (Inr ns) s d
                   = (Report (length ns) (length (filter (\<lambda>n. content n \<noteq> []) ns))
                        (length (filter (\<lambda>n. content n = []) ns)), s', d')
           \<and> set (Map_keys (vectors s')) = note_id ` {n \<in> set ns. content n \<noteq> []}
           \<and> set (Map_keys (metadata s')) = note_id ` {n \<in> set ns. content n \<noteq> []}
           \<and> length (vectors s') = length (filter (\<lambda>n. content n \<noteq> []) ns)"
      by (rule steady)
  qed
qed

lemma notes25_facts:
  "length notes25 = 25" "distinct (map note_id notes25)"
  "length (filter (\<lambda>n. content n \<noteq> []) notes25) = 22"
  "length (filter (\<lambda>n. content n = []) notes25) = 3"
  "list_all (\<lambda>n. note_id n \<noteq> []) notes25"
  by (simp_all add: notes25_def)

theorem reindexAll_report_witness:
  "notes25 \<noteq> [] \<and> next_write_ok (snd state1) \<and> write_faults (snd state1) = []
   \<and> distinct (map note_id notes25)
   \<and> list_all (\<lambda>n. note_id n \<noteq> [] \<and> \<not> embedding_upsert_fails steady (note_id n)
                     \<and> \<not> note_update_fails steady (note_id n)) notes25
   \<and> length notes25 = 25
   \<and> length (filter (\<lambda>n. content n = []) notes25) = 3
   \<and> (\<exists>s' d'. reindexAll steady ''t9'' (Inr notes25) (fst state1) (snd state1)
                 = (Report 25 22 3, s', d')
         \<and> length (vectors s') = 22
         \<and> ''n01'' \<in> set (Map_keys (vectors s')) \<and> ''n04'' \<notin> set (Map_keys (vectors s'))
         \<and> ''n1'' \<notin> set (Map_keys (vectors s')))
   \<and> notes4 \<noteq> [] \<and> next_write_ok flaky_disk
   \<and> outcomes flaky (tl (write_faults flaky_disk)) notes4 = [False, False, False, True]
   \<and> (\<exists>s' d'. reindexAll flaky ''t9'' (Inr notes4) (fst state1) flaky_disk
                 = (Report 4 1 3, s', d')
         \<and> set (Map_keys (vectors s')) = {''b'', ''c'', ''d''})"
proof -
  have ne: "notes25 \<noteq> []"
    using notes25_facts(1) by auto
  have w: "write_faults (snd state1) = []" "next_write_ok (snd state1)"
    by (simp_all add: state1_eval next_write_ok_def)
  have all: "list_all (\<lambda>n. note_id n \<noteq> [] \<and> \<not> embedding_upsert_fails steady (note_id n)
                     \<and> \<not> note_update_fails steady (note_id n)) notes25"
    using notes25_facts(5) by (simp add: steady_def)
  then have ball: "\<forall>n\<in>set notes25. note_id n \<noteq> [] \<and> \<not> embedding_upsert_fails steady (note_id n)
                     \<and> \<not> note_update_fails steady (note_id n)"
    by (simp add: list_all_iff)
  have h25: "notes25 \<noteq> [] \<and> write_faults (snd state1) = [] \<and> distinct (map note_id notes25)
        \<and> (\<forall>n\<in>set notes25. note_id n \<noteq> [] \<and> \<not> embedding_upsert_fails steady (note_id n)
                          \<and> \<not> note_update_fails steady (note_id n))"
    by (intro conjI ne w(1) notes25_facts(2) ball)
  from reindexAll_report [of notes25 "snd state1" steady "''t9''" "fst state1",
      THEN conjunct2, THEN mp, OF h25]
  obtain s' d' where res:
    "reindexAll steady ''t9'' (Inr notes25) (fst state1) (snd state1)
       = (Report (length notes25) (length (filter (\<lambda>n. content n \<noteq> []) notes25))
                        (length (filter (\<lambda>n. content n = []) notes25)), s', d')"
    "set (Map_keys (vectors s')) = note_id ` {n \<in> set notes25. content n \<noteq> []}"
    "length (vectors s') = length (filter (\<lambda>n. content n \<noteq> []) notes25)"
    by blast
  have img: "note_id ` {n \<in> set notes25. content n \<noteq> []}
               = set (map note_id (filter (\<lambda>n. content n \<noteq> []) notes25))"
    by auto
  have keys: "''n01'' \<in> note_id ` {n \<in> set notes25. content n \<noteq> []}"
    "''n04'' \<notin> note_id ` {n \<in> set notes25. content n \<noteq> []}"
    "''n1'' \<notin> note_id ` {n \<in> set notes25. content n \<noteq> []}"
    unfolding img by (simp_all add: notes25_def)
  from res keys have 1: "\<exists>s' d'. reindexAll steady ''t9'' (Inr notes25) (fst state1) (snd state1)
                 = (Report 25 22 3, s', d')
         \<and> length (vectors s') = 22
         \<and> ''n01'' \<in> set (Map_keys (vectors s')) \<and> ''n04'' \<notin> set (Map_keys (vectors s'))
         \<and> ''n1'' \<notin> set (Map_keys (vectors s'))"
    by (simp add: notes25_facts)
  have ne4: "notes4 \<noteq> []" and w4: "next_write_ok flaky_disk"
    by (simp_all add: notes4_def flaky_disk_def next_write_ok_def)
  have oc4: "outcomes flaky (tl (write_faults flaky_disk)) notes4 = [False, False, False, True]"
    by (simp add: notes4_def flaky_disk_def flaky_def reaches_store_def)
  have "note_id ` {n \<in> set notes4. reaches_store n}
          = set (map note_id (filter reaches_store notes4))"
    by auto
  also have "\<dots> = {''b'', ''c'', ''d''}"
    by (simp add: notes4_def reaches_store_def)
  finally have img4: "note_id ` {n \<in> set notes4. reaches_store n} = {''b'', ''c'', ''d''}" .
  have h4: "notes4 \<noteq> [] \<and> next_write_ok flaky_disk"
    by (intro conjI ne4 w4)
  from reindexAll_report [of notes4 flaky_disk flaky "''t9''" "fst state1",
      THEN conjunct1, THEN mp, OF h4]
  obtain s4 d4 where res4:
    "reindexAll flaky ''t9'' (Inr notes4) (fst state1) flaky_disk
       = (Report (length notes4)
            (count_list (outcomes flaky (tl (write_faults flaky_disk)) notes4) True)
            (count_list (outcomes flaky (tl (write_faults flaky_disk)) notes4) False), s4, d4)"
    "set (Map_keys (vectors s4)) = note_id ` {n \<in> set notes4. reaches_store n}"
    by blast
  have "length notes4 = 4"
    by (simp add: notes4_def)
  with res4 have 2: "\<exists>s' d'. reindexAll flaky ''t9'' (Inr notes4) (fst state1) flaky_disk
                 = (Report 4 1 3, s', d')
         \<and> set (Map_keys (vectors s')) = {''b'', ''c'', ''d''}"
    unfolding oc4 img4 by simp
  from ne w notes25_facts all 1 ne4 w4 oc4 2 show ?thesis
    by simp
qed

end
